theory Spec2Isabelle
  imports
    Main
    "HOL-Library.Word"
    "HOL-Library.Finite_Map"
    "HOL-Library.Signed_Division"
    "HOL-Library.List_Lexorder"
    "HOL-Library.Char_ord"
begin

unbundle bit_operations_syntax

section \<open>Go primitives used by the two rings\<close>

text \<open>
  The repository holds two consistent-hashing rings: \<open>Consistent\<close> (consistent.go, string
  nodes, 32-bit positions) and \<open>ConsistentHash\<close> (consistent1.go, arbitrary nodes, 64-bit
  positions, pluggable hash function).  Both are embedded below, function by function.
  A Go string is a byte sequence and is modelled as \<open>string\<close>; Go's \<open>int\<close> and
  \<open>int64\<close> are 64-bit words read with \<open>sint\<close>; a Go map is a finite map.
\<close>

type_synonym u32 = "32 word"
type_synonym u64 = "64 word"
type_synonym go_int = "64 word"

datatype error =
    ErrEmptyCircle
  | PanicDivideByZero
  | PanicIndexOutOfRange
  | PanicMakeSlice

text \<open>\<open>strconv.Itoa\<close>: the decimal text of an integer.\<close>

fun digits :: "nat \<Rightarrow> string" where
  "digits n = (if n < 10 then [char_of (48 + n)] else digits (n div 10) @ [char_of (48 + n mod 10)])"

definition Itoa :: "int \<Rightarrow> string" where
  "Itoa i = (if i < 0 then CHR ''-'' # digits (nat (- i)) else digits (nat i))"

text \<open>
  The index values of \<open>for i := 0; i < n; i++\<close> for a signed 64-bit bound \<open>n\<close>:
  none when \<open>n \<le> 0\<close>.
\<close>

definition loop_indices :: "go_int \<Rightarrow> int list" where
  "loop_indices n = map int [0..<nat (sint n)]"

text \<open>The built-in \<open>copy(dst, src)\<close>: overwrites the first \<open>min (len dst) (len src)\<close> bytes.\<close>

definition copy_bytes :: "string \<Rightarrow> string \<Rightarrow> string" where
  "copy_bytes dst src = take (length dst) src @ drop (length src) dst"

text \<open>
  \<open>crc32.ChecksumIEEE\<close> of the standard library: the reflected CRC-32 with polynomial
  \<open>0xEDB88320\<close>, initial value and final complement \<open>0xFFFFFFFF\<close>, one byte at a time,
  eight shift steps per byte.
\<close>

definition crc32_step :: "u32 \<Rightarrow> u32" where
  "crc32_step crc = (if crc AND 1 = 1 then drop_bit 1 crc XOR 0xEDB88320 else drop_bit 1 crc)"

definition crc32_update :: "u32 \<Rightarrow> char \<Rightarrow> u32" where
  "crc32_update crc b = (crc32_step ^^ 8) (crc XOR of_nat (of_char b))"

definition ChecksumIEEE :: "string \<Rightarrow> u32" where
  "ChecksumIEEE bs = foldl crc32_update 0xFFFFFFFF bs XOR 0xFFFFFFFF"

text \<open>\<open>fnv.New32a\<close>, \<open>Write\<close>, \<open>Sum32\<close>: 32-bit FNV-1a.\<close>

definition fnv32a :: "string \<Rightarrow> u32" where
  "fnv32a bs = foldl (\<lambda>h b. (h XOR of_nat (of_char b)) * 16777619) 2166136261 bs"

text \<open>
  \<open>sort.Search(n, f)\<close>: the standard library's binary search, which returns the least
  index in \<open>[0, n)\<close> at which \<open>f\<close> holds when \<open>f\<close> is monotone, and \<open>n\<close> when there
  is none.  \<open>f\<close> is only called inside \<open>[0, n)\<close>.
\<close>

function sort_Search_loop :: "(nat \<Rightarrow> bool) \<Rightarrow> nat \<Rightarrow> nat \<Rightarrow> nat" where
  "sort_Search_loop f i j =
     (if i < j
      then (if \<not> f ((i + j) div 2)
            then sort_Search_loop f ((i + j) div 2 + 1) j
            else sort_Search_loop f i ((i + j) div 2))
      else i)"
  by pat_completeness auto
termination
  by (relation "measure (\<lambda>(f, i, j). j - i)") auto

definition sort_Search :: "nat \<Rightarrow> (nat \<Rightarrow> bool) \<Rightarrow> nat" where
  "sort_Search n f = sort_Search_loop f 0 n"

text \<open>\<open>len(m)\<close> of a map.\<close>

definition len_map :: "('k, 'v) fmap \<Rightarrow> nat" where
  "len_map m = fcard (fmdom m)"

section \<open>consistent.go: the string ring\<close>

text \<open>
  The struct's \<open>scratch\<close> array is never read or written (\<open>hashKeyCRC32\<close> declares its
  own local one) and the lock is not modelled: every operation runs alone on the state.
\<close>

record Consistent =
  circle :: "(u32, string) fmap"
  members :: "(string, bool) fmap"
  sortedHashes :: "u32 list"
  NumberOfReplicas :: go_int
  count :: go_int
  UseFnv :: bool

definition New :: Consistent where
  "New = \<lparr> circle = fmempty, members = fmempty, sortedHashes = [],
           NumberOfReplicas = 20, count = 0, UseFnv = False \<rparr>"

definition eltKey :: "string \<Rightarrow> int \<Rightarrow> string" where
  "eltKey elt idx = Itoa idx @ elt"

definition hashKeyCRC32 :: "string \<Rightarrow> u32" where
  "hashKeyCRC32 key =
     (if length key < 64
      then ChecksumIEEE (take (length key) (copy_bytes (replicate 64 (CHR 0x00)) key))
      else ChecksumIEEE key)"

definition hashKeyFnv :: "string \<Rightarrow> u32" where
  "hashKeyFnv key = fnv32a key"

definition hashKey :: "Consistent \<Rightarrow> string \<Rightarrow> u32" where
  "hashKey c key = (if UseFnv c then hashKeyFnv key else hashKeyCRC32 key)"

text \<open>
  \<open>updateSortedHashes\<close>: the keys of \<open>circle\<close>, sorted.  Whether the old backing array is
  reused is invisible here, but the test that decides it divides by
  \<open>NumberOfReplicas * 4\<close>, which panics when that product is zero.
\<close>

definition updateSortedHashes :: "Consistent \<Rightarrow> error + Consistent" where
  "updateSortedHashes c =
     (if NumberOfReplicas c * 4 = 0 then Inl PanicDivideByZero
      else Inr (c\<lparr> sortedHashes := sorted_list_of_fset (fmdom (circle c)) \<rparr>))"

definition add :: "Consistent \<Rightarrow> string \<Rightarrow> error + Consistent" where
  "add c elt =
     (let c1 = c\<lparr> circle := foldl (\<lambda>m i. fmupd (hashKey c (eltKey elt i)) elt m)
                               (circle c) (loop_indices (NumberOfReplicas c)) \<rparr>;
          c2 = c1\<lparr> members := fmupd elt True (members c1) \<rparr>
      in case updateSortedHashes c2 of
           Inl e \<Rightarrow> Inl e
         | Inr c3 \<Rightarrow> Inr (c3\<lparr> count := count c3 + 1 \<rparr>))"

definition Add :: "Consistent \<Rightarrow> string \<Rightarrow> error + Consistent" where
  "Add c elt = add c elt"

definition remove :: "Consistent \<Rightarrow> string \<Rightarrow> error + Consistent" where
  "remove c elt =
     (let c1 = c\<lparr> circle := foldl (\<lambda>m i. fmdrop (hashKey c (eltKey elt i)) m)
                               (circle c) (loop_indices (NumberOfReplicas c)) \<rparr>;
          c2 = c1\<lparr> members := fmdrop elt (members c1) \<rparr>
      in case updateSortedHashes c2 of
           Inl e \<Rightarrow> Inl e
         | Inr c3 \<Rightarrow> Inr (c3\<lparr> count := count c3 - 1 \<rparr>))"

definition Remove :: "Consistent \<Rightarrow> string \<Rightarrow> error + Consistent" where
  "Remove c elt = remove c elt"

text \<open>
  \<open>Set\<close>: the first loop ranges over the members (Go leaves the order open; the removals
  commute, and the sorted order is taken here) and removes those not found in \<open>elts\<close>; the
  second adds the elements of \<open>elts\<close> that are not members.
\<close>

fun Set_remove_loop :: "string list \<Rightarrow> string list \<Rightarrow> Consistent \<Rightarrow> error + Consistent" where
  "Set_remove_loop [] elts c = Inr c"
| "Set_remove_loop (k # ks) elts c =
     (if k \<in> set elts then Set_remove_loop ks elts c
      else case remove c k of
             Inl e \<Rightarrow> Inl e
           | Inr c1 \<Rightarrow> Set_remove_loop ks elts c1)"

fun Set_add_loop :: "string list \<Rightarrow> Consistent \<Rightarrow> error + Consistent" where
  "Set_add_loop [] c = Inr c"
| "Set_add_loop (v # vs) c =
     (if v |\<in>| fmdom (members c) then Set_add_loop vs c
      else case add c v of
             Inl e \<Rightarrow> Inl e
           | Inr c1 \<Rightarrow> Set_add_loop vs c1)"

definition Set :: "Consistent \<Rightarrow> string list \<Rightarrow> error + Consistent" where
  "Set c elts =
     (case Set_remove_loop (sorted_list_of_fset (fmdom (members c))) elts c of
        Inl e \<Rightarrow> Inl e
      | Inr c1 \<Rightarrow> Set_add_loop elts c1)"

text \<open>Reading a map at a key: the zero value \<open>""\<close> when the key is absent.\<close>

definition circle_at :: "Consistent \<Rightarrow> u32 \<Rightarrow> string" where
  "circle_at c k = (case fmlookup (circle c) k of None \<Rightarrow> [] | Some v \<Rightarrow> v)"

definition search :: "Consistent \<Rightarrow> u32 \<Rightarrow> nat" where
  "search c key =
     (let i = sort_Search (length (sortedHashes c)) (\<lambda>x. sortedHashes c ! x > key)
      in if i \<ge> length (sortedHashes c) then 0 else i)"

definition Get :: "Consistent \<Rightarrow> string \<Rightarrow> error + string" where
  "Get c name =
     (if len_map (circle c) = 0 then Inl ErrEmptyCircle
      else let key = hashKey c name; i = search c key
           in if i \<ge> length (sortedHashes c) then Inl PanicIndexOutOfRange
              else Inr (circle_at c (sortedHashes c ! i)))"

text \<open>
  The loop of \<open>GetTwo\<close>, entered with \<open>i = start + 1\<close>.  It need not end: a result of
  \<open>None\<close> is a run that never returns.
\<close>

partial_function (option) GetTwo_loop ::
  "Consistent \<Rightarrow> string \<Rightarrow> nat \<Rightarrow> nat \<Rightarrow> string \<Rightarrow> (error + string) option" where
  "GetTwo_loop c a start i b =
     (if i = start then Some (Inr b)
      else let i1 = (if i \<ge> len_map (circle c) then 0 else i)
           in if i1 \<ge> length (sortedHashes c) then Some (Inl PanicIndexOutOfRange)
              else let b1 = circle_at c (sortedHashes c ! i1)
                   in if b1 \<noteq> a then Some (Inr b1)
                      else GetTwo_loop c a start (i1 + 1) b1)"

definition GetTwo :: "Consistent \<Rightarrow> string \<Rightarrow> (error + string \<times> string) option" where
  "GetTwo c name =
     (if len_map (circle c) = 0 then Some (Inl ErrEmptyCircle)
      else let key = hashKey c name; i = search c key
           in if i \<ge> length (sortedHashes c) then Some (Inl PanicIndexOutOfRange)
              else let a = circle_at c (sortedHashes c ! i)
                   in if count c = 1 then Some (Inr (a, []))
                      else case GetTwo_loop c a i (i + 1) [] of
                             None \<Rightarrow> None
                           | Some (Inl e) \<Rightarrow> Some (Inl e)
                           | Some (Inr b) \<Rightarrow> Some (Inr (a, b)))"

definition sliceContainsMember :: "string list \<Rightarrow> string \<Rightarrow> bool" where
  "sliceContainsMember xs member = (member \<in> set xs)"

partial_function (option) GetN_loop ::
  "Consistent \<Rightarrow> int \<Rightarrow> nat \<Rightarrow> nat \<Rightarrow> string list \<Rightarrow> (error + string list) option" where
  "GetN_loop c n start i res =
     (if i = start then Some (Inr res)
      else let i1 = (if i \<ge> length (sortedHashes c) then 0 else i)
           in if i1 \<ge> length (sortedHashes c) then Some (Inl PanicIndexOutOfRange)
              else let elem = circle_at c (sortedHashes c ! i1);
                       res1 = (if \<not> sliceContainsMember res elem then res @ [elem] else res)
                   in if int (length res1) = n then Some (Inr res1)
                      else GetN_loop c n start (i1 + 1) res1)"

text \<open>
  \<open>GetN\<close>: \<open>n\<close> is clamped by \<open>count\<close>; \<open>make([]string, 0, n)\<close> panics for a negative
  \<open>n\<close>.
\<close>

definition GetN :: "Consistent \<Rightarrow> string \<Rightarrow> go_int \<Rightarrow> (error + string list) option" where
  "GetN c name n0 =
     (if len_map (circle c) = 0 then Some (Inl ErrEmptyCircle)
      else let n = (if sint (count c) < sint n0 then sint (count c) else sint n0);
               key = hashKey c name;
               i = search c key
           in if n < 0 then Some (Inl PanicMakeSlice)
              else if i \<ge> length (sortedHashes c) then Some (Inl PanicIndexOutOfRange)
              else GetN_loop c n i (i + 1) [circle_at c (sortedHashes c ! i)])"

section \<open>consistent1.go: the ring over arbitrary nodes\<close>

text \<open>
  A node or key is an \<open>interface{}\<close>.  The values modelled are the untyped \<open>nil\<close>, booleans,
  \<open>int\<close>s and strings; \<open>repr\<close> is the source's function on them, and \<open>fmt_v\<close> is the
  \<open>%v\<close> verb of \<open>fmt\<close> that \<open>innerRepr\<close> applies.
\<close>

datatype node = NilNode | BoolNode bool | IntNode go_int | StringNode string

fun repr :: "node \<Rightarrow> string" where
  "repr NilNode = []"
| "repr (BoolNode b) = (if b then ''true'' else ''false'')"
| "repr (IntNode i) = Itoa (sint i)"
| "repr (StringNode s) = s"

fun fmt_v :: "node \<Rightarrow> string" where
  "fmt_v NilNode = ''<nil>''"
| "fmt_v (BoolNode b) = (if b then ''true'' else ''false'')"
| "fmt_v (IntNode i) = Itoa (sint i)"
| "fmt_v (StringNode s) = s"

definition TopWeight :: go_int where "TopWeight = 100"
definition minReplica :: go_int where "minReplica = 100"
definition prime :: int where "prime = 167777619"

definition innerRepr :: "node \<Rightarrow> string" where
  "innerRepr v = Itoa prime @ '':'' @ fmt_v v"

type_synonym HashFunc = "string \<Rightarrow> u64"

record ConsistentHash =
  hashFunc :: HashFunc
  replicas :: go_int
  keys :: "u64 list"
  ring :: "(u64, node list) fmap"
  nodes :: "(string, unit) fmap"

text \<open>
  The default hash function \<open>Hash\<close> is not among the repository's sources; the constructors
  take it as the parameter \<open>Hash\<close>.  A \<open>nil\<close> function argument is \<open>None\<close>.
\<close>

definition NewCustomConsistentHash :: "HashFunc \<Rightarrow> go_int \<Rightarrow> HashFunc option \<Rightarrow> ConsistentHash" where
  "NewCustomConsistentHash Hash replicas0 fn0 =
     (let replicas1 = (if sint replicas0 < sint minReplica then minReplica else replicas0);
          fn = (case fn0 of None \<Rightarrow> Hash | Some f \<Rightarrow> f)
      in \<lparr> hashFunc = fn, replicas = replicas1, keys = [], ring = fmempty, nodes = fmempty \<rparr>)"

definition NewConsistentHash :: "HashFunc \<Rightarrow> ConsistentHash" where
  "NewConsistentHash Hash = NewCustomConsistentHash Hash minReplica (Some Hash)"

definition containsNode :: "ConsistentHash \<Rightarrow> string \<Rightarrow> bool" where
  "containsNode h nodeRepr = (nodeRepr |\<in>| fmdom (nodes h))"

definition addNode :: "ConsistentHash \<Rightarrow> string \<Rightarrow> ConsistentHash" where
  "addNode h nodeRepr = h\<lparr> nodes := fmupd nodeRepr () (nodes h) \<rparr>"

definition removeNode :: "ConsistentHash \<Rightarrow> string \<Rightarrow> ConsistentHash" where
  "removeNode h nodeRepr = h\<lparr> nodes := fmdrop nodeRepr (nodes h) \<rparr>"

definition removeRingNode :: "ConsistentHash \<Rightarrow> u64 \<Rightarrow> string \<Rightarrow> ConsistentHash" where
  "removeRingNode h hash nodeRepr =
     (case fmlookup (ring h) hash of
        None \<Rightarrow> h
      | Some ns \<Rightarrow>
          (let newNodes = filter (\<lambda>x. repr x \<noteq> nodeRepr) ns
           in if length newNodes > 0 then h\<lparr> ring := fmupd hash newNodes (ring h) \<rparr>
              else h\<lparr> ring := fmdrop hash (ring h) \<rparr>))"

text \<open>
  One round of the loop of \<open>Remove\<close>: the key at the first index whose value is at least
  \<open>hash\<close> is cut out of \<open>keys\<close> (the source does not compare it with \<open>hash\<close>), then the
  node leaves the ring position \<open>hash\<close>.
\<close>

definition Remove_step :: "string \<Rightarrow> ConsistentHash \<Rightarrow> int \<Rightarrow> ConsistentHash" where
  "Remove_step nodeRepr h i =
     (let hash = hashFunc h (nodeRepr @ Itoa i);
          index = sort_Search (length (keys h)) (\<lambda>j. keys h ! j \<ge> hash);
          h1 = (if index < length (keys h)
                then h\<lparr> keys := take index (keys h) @ drop (index + 1) (keys h) \<rparr>
                else h)
      in removeRingNode h1 hash nodeRepr)"

text \<open>\<open>Remove\<close> never calls \<open>removeNode\<close>: the identity stays in \<open>nodes\<close>.\<close>

definition ConsistentHash_Remove :: "ConsistentHash \<Rightarrow> node \<Rightarrow> ConsistentHash" where
  "ConsistentHash_Remove h nd =
     (let nodeRepr = repr nd
      in if \<not> containsNode h nodeRepr then h
         else foldl (Remove_step nodeRepr) h (loop_indices (replicas h)))"

definition AddWithReplicas_step :: "node \<Rightarrow> string \<Rightarrow> ConsistentHash \<Rightarrow> int \<Rightarrow> ConsistentHash" where
  "AddWithReplicas_step nd nodeRepr h i =
     (let hash = hashFunc h (nodeRepr @ Itoa i)
      in h\<lparr> keys := keys h @ [hash],
            ring := fmupd hash ((case fmlookup (ring h) hash of None \<Rightarrow> [] | Some ns \<Rightarrow> ns) @ [nd])
                      (ring h) \<rparr>)"

definition AddWithReplicas :: "ConsistentHash \<Rightarrow> node \<Rightarrow> go_int \<Rightarrow> ConsistentHash" where
  "AddWithReplicas h0 nd replicas0 =
     (let h = ConsistentHash_Remove h0 nd;
          replicas1 = (if sint replicas0 > sint (replicas h) then replicas h else replicas0);
          nodeRepr = repr nd;
          h1 = addNode h nodeRepr;
          h2 = foldl (AddWithReplicas_step nd nodeRepr) h1 (loop_indices replicas1)
      in h2\<lparr> keys := sort (keys h2) \<rparr>)"

definition ConsistentHash_Add :: "ConsistentHash \<Rightarrow> node \<Rightarrow> ConsistentHash" where
  "ConsistentHash_Add h nd = AddWithReplicas h nd (replicas h)"

text \<open>
  \<open>h.replicas * weight / TopWeight\<close> on 64-bit \<open>int\<close>: the product wraps, the quotient
  truncates towards zero.
\<close>

definition AddWithWeight :: "ConsistentHash \<Rightarrow> node \<Rightarrow> go_int \<Rightarrow> ConsistentHash" where
  "AddWithWeight h nd weight =
     AddWithReplicas h nd (word_of_int (sint (replicas h * weight) sdiv sint TopWeight))"

text \<open>
  \<open>Get\<close> returns a node and a flag; \<open>(nil, false)\<close> is \<open>None\<close>.  The index is reduced
  modulo \<open>len(h.keys)\<close>, which panics when \<open>keys\<close> is empty.
\<close>

definition ConsistentHash_Get :: "ConsistentHash \<Rightarrow> node \<Rightarrow> error + node option" where
  "ConsistentHash_Get h v =
     (if len_map (ring h) = 0 then Inr None
      else let hash = hashFunc h (repr v)
           in if length (keys h) = 0 then Inl PanicDivideByZero
              else let index = sort_Search (length (keys h)) (\<lambda>i. keys h ! i \<ge> hash)
                                 mod length (keys h);
                       ns = (case fmlookup (ring h) (keys h ! index) of None \<Rightarrow> [] | Some xs \<Rightarrow> xs)
                   in if length ns = 0 then Inr None
                      else if length ns = 1 then Inr (Some (ns ! 0))
                      else Inr (Some (ns ! (unat (hashFunc h (innerRepr v)) mod length ns))))"

section \<open>Sequences of mutations and the shape of a ring\<close>

datatype op = OpAdd string | OpRemove string | OpSet "string list"

fun apply_op :: "Consistent \<Rightarrow> op \<Rightarrow> error + Consistent" where
  "apply_op c (OpAdd elt) = Add c elt"
| "apply_op c (OpRemove elt) = Remove c elt"
| "apply_op c (OpSet elts) = Set c elts"

fun run :: "Consistent \<Rightarrow> op list \<Rightarrow> error + Consistent" where
  "run c [] = Inr c"
| "run c (x # xs) = (case apply_op c x of Inl e \<Rightarrow> Inl e | Inr c1 \<Rightarrow> run c1 xs)"

datatype hop =
    HopAdd node
  | HopAddWithReplicas node go_int
  | HopAddWithWeight node go_int
  | HopRemove node

fun apply_hop :: "ConsistentHash \<Rightarrow> hop \<Rightarrow> ConsistentHash" where
  "apply_hop h (HopAdd nd) = ConsistentHash_Add h nd"
| "apply_hop h (HopAddWithReplicas nd r) = AddWithReplicas h nd r"
| "apply_hop h (HopAddWithWeight nd w) = AddWithWeight h nd w"
| "apply_hop h (HopRemove nd) = ConsistentHash_Remove h nd"

definition hrun :: "ConsistentHash \<Rightarrow> hop list \<Rightarrow> ConsistentHash" where
  "hrun h xs = foldl apply_hop h xs"

text \<open>
  The positions \<open>add\<close> writes and \<open>remove\<close> deletes for an element, the position
  sequence being the sorted keys of the circle, and the nodes met along it.
\<close>

definition positions_of :: "Consistent \<Rightarrow> string \<Rightarrow> u32 list" where
  "positions_of c elt = map (\<lambda>i. hashKey c (eltKey elt i)) (loop_indices (NumberOfReplicas c))"

definition ring_ok :: "Consistent \<Rightarrow> bool" where
  "ring_ok c = (sortedHashes c = sorted_list_of_fset (fmdom (circle c)))"

definition occupants :: "Consistent \<Rightarrow> string list" where
  "occupants c = map (circle_at c) (sortedHashes c)"

definition config_ok :: "Consistent \<Rightarrow> bool" where
  "config_ok c = (NumberOfReplicas c * 4 \<noteq> 0)"

definition occupants_registered :: "Consistent \<Rightarrow> bool" where
  "occupants_registered c =
     (\<forall>p e. fmlookup (circle c) p = Some e \<longrightarrow>
        e |\<in>| fmdom (members c) \<and> p \<in> set (positions_of c e))"

definition good :: "Consistent \<Rightarrow> bool" where
  "good c = (config_ok c \<and> ring_ok c \<and> occupants_registered c)"

definition hgood :: "ConsistentHash \<Rightarrow> bool" where
  "hgood h =
     (sorted (keys h) \<and>
      (\<forall>p ns. fmlookup (ring h) p = Some ns \<longrightarrow>
         ns \<noteq> [] \<and> (\<forall>x \<in> set ns. repr x |\<in>| fmdom (nodes h))))"

text \<open>
  The position \<open>Get\<close> reads for a hash value, and the index \<open>ConsistentHash.Get\<close>
  reads.
\<close>

definition selected :: "Consistent \<Rightarrow> u32 \<Rightarrow> u32" where
  "selected c key = sortedHashes c ! search c key"

definition selected_index :: "ConsistentHash \<Rightarrow> u64 \<Rightarrow> nat" where
  "selected_index h hash =
     sort_Search (length (keys h)) (\<lambda>i. keys h ! i \<ge> hash) mod length (keys h)"

section \<open>Rings used as examples\<close>

text \<open>
  \<open>ring_one\<close>: a fresh ring after \<open>Add("abcdefg")\<close>.  \<open>ring_clash\<close>: a fresh ring after
  \<open>Add("kadtati")\<close> and \<open>Add("hosdwbv")\<close>, two names with the same CRC-32, so that each
  replica of the second lands on a replica of the first.
\<close>

definition ring_one :: Consistent where
  "ring_one = projr (Add New ''abcdefg'')"

definition ring_clash :: Consistent where
  "ring_clash = projr (Add (projr (Add New ''kadtati'')) ''hosdwbv'')"

text \<open>
  A hash function a caller may pass to \<open>NewCustomConsistentHash\<close>: 64-bit FNV-1a.
  \<open>nodes_a_a1\<close> holds the nodes \<open>"a"\<close> (eleven replicas) and \<open>"a1"\<close> (one replica);
  replica 10 of the first and replica 0 of the second are both hashed from \<open>"a10"\<close>.
  \<open>node_weight0\<close> is a fresh ring after \<open>AddWithWeight("a", 0)\<close>.
\<close>

definition fnv64a :: HashFunc where
  "fnv64a bs = foldl (\<lambda>h b. (h XOR of_nat (of_char b)) * 1099511628211) 14695981039346656037 bs"

definition nodes_a_a1 :: ConsistentHash where
  "nodes_a_a1 = hrun (NewCustomConsistentHash fnv64a 100 (Some fnv64a))
                  [HopAddWithReplicas (StringNode ''a'') 11, HopAddWithReplicas (StringNode ''a1'') 1]"

definition node_a_once :: ConsistentHash where
  "node_a_once = hrun (NewCustomConsistentHash fnv64a 100 (Some fnv64a))
                   [HopAddWithReplicas (StringNode ''a'') 1]"

definition node_weight0 :: ConsistentHash where
  "node_weight0 = AddWithWeight (NewConsistentHash fnv64a) (StringNode ''a'') 0"

text \<open>
  \<open>clash_positions\<close>: the CRC-32 values of \<open>"0kadtati"\<close>, \<dots>, \<open>"19kadtati"\<close>, which are
  also those of \<open>"0hosdwbv"\<close>, \<dots>, \<open>"19hosdwbv"\<close>.  \<open>ring_two\<close>: a fresh ring after
  \<open>Add("abcdefg")\<close> and \<open>Add("hijklmn")\<close>.
\<close>

definition clash_positions :: "u32 list" where
  "clash_positions =
     [338782891, 3634063925, 1444179414, 2596171080, 2424005713, 1557226703, 3529401132,
      519332786, 3352588574, 192835968, 2924508669, 1660581219, 3967120000, 551514654,
      706378503, 3870325657, 1748991098, 2761260260, 2109042248, 2971627222]"

definition ring_two :: Consistent where
  "ring_two = projr (Add ring_one ''hijklmn'')"

text \<open>
  The position a lookup selects, read off the sequence without the search: the first
  position greater than the key, the head of the sequence when there is none.
\<close>

definition pick :: "u32 list \<Rightarrow> u32 \<Rightarrow> u32" where
  "pick xs key = (case filter (\<lambda>p. key < p) xs of [] \<Rightarrow> hd xs | q # _ \<Rightarrow> q)"

text \<open>\<open>ring_emptied\<close>: a fresh ring after \<open>Add("abcdefg")\<close> and \<open>Remove("abcdefg")\<close>.\<close>

definition ring_emptied :: Consistent where
  "ring_emptied = projr (Remove ring_one ''abcdefg'')"

section \<open>The hash of a key\<close>

text \<open>
  C10.  Both branches of \<open>hashKeyCRC32\<close> compute the CRC-32 checksum of the key's own
  bytes: for a key shorter than 64 bytes, the scratch buffer cut to the key's length is the
  key.
\<close>

theorem hashKeyCRC32_is_ChecksumIEEE: "hashKeyCRC32 key = ChecksumIEEE key"
  by (simp add: hashKeyCRC32_def copy_bytes_def)

section \<open>Binary search\<close>

declare sort_Search_loop.simps [simp del]

lemma sort_Search_loop_spec:
  assumes "\<forall>a b. a \<le> b \<and> b < n \<and> f a \<longrightarrow> f b"
    and "i \<le> j" and "j \<le> n"
    and "\<forall>k<i. \<not> f k" and "j < n \<longrightarrow> f j"
  shows "i \<le> sort_Search_loop f i j \<and> sort_Search_loop f i j \<le> j
         \<and> (\<forall>k < sort_Search_loop f i j. \<not> f k)
         \<and> (sort_Search_loop f i j < n \<longrightarrow> f (sort_Search_loop f i j))"
  using assms
proof (induction f i j rule: sort_Search_loop.induct)
  case (1 f i j)
  show ?case
  proof (cases "i < j")
    case False
    with "1.prems" have "i = j" by simp
    moreover have "sort_Search_loop f i j = i"
      using False by (subst sort_Search_loop.simps) simp
    ultimately show ?thesis using "1.prems" by simp
  next
    case True
    let ?h = "(i + j) div 2"
    from True have hb: "i \<le> ?h" "?h < j" by auto
    show ?thesis
    proof (cases "f ?h")
      case False
      have nb: "\<forall>k<?h + 1. \<not> f k"
      proof (intro allI impI)
        fix k assume "k < ?h + 1"
        then have "k \<le> ?h" by simp
        with "1.prems"(1) hb "1.prems"(3) False show "\<not> f k"
          by (meson le_trans less_le_trans not_less order.strict_trans2)
      qed
      from hb have "?h + 1 \<le> j" by simp
      from "1.IH"(1)[OF True False "1.prems"(1) this "1.prems"(3) nb "1.prems"(5)] hb
      have "?h + 1 \<le> sort_Search_loop f (?h + 1) j \<and> sort_Search_loop f (?h + 1) j \<le> j
         \<and> (\<forall>k < sort_Search_loop f (?h + 1) j. \<not> f k)
         \<and> (sort_Search_loop f (?h + 1) j < n \<longrightarrow> f (sort_Search_loop f (?h + 1) j))" by simp
      moreover have "sort_Search_loop f i j = sort_Search_loop f (?h + 1) j"
        using True False by (subst sort_Search_loop.simps) simp
      ultimately show ?thesis using hb by simp
    next
      case fh: True
      from hb "1.prems"(3) have "?h \<le> n" by simp
      from "1.IH"(2)[OF True _ "1.prems"(1) hb(1) this "1.prems"(4)] fh
      have "i \<le> sort_Search_loop f i ?h \<and> sort_Search_loop f i ?h \<le> ?h
         \<and> (\<forall>k < sort_Search_loop f i ?h. \<not> f k)
         \<and> (sort_Search_loop f i ?h < n \<longrightarrow> f (sort_Search_loop f i ?h))" by simp
      moreover have "sort_Search_loop f i j = sort_Search_loop f i ?h"
        using True fh by (subst sort_Search_loop.simps) simp
      ultimately show ?thesis using hb by simp
    qed
  qed
qed

lemma sort_Search_spec:
  assumes "\<forall>a b. a \<le> b \<and> b < n \<and> f a \<longrightarrow> f b"
  shows "sort_Search n f \<le> n \<and> (\<forall>k < sort_Search n f. \<not> f k)
         \<and> (sort_Search n f < n \<longrightarrow> f (sort_Search n f))"
  using sort_Search_loop_spec[OF assms, of 0 n] by (simp add: sort_Search_def)

lemma sorted_gt_mono:
  assumes "sorted xs"
  shows "\<forall>a b. a \<le> b \<and> b < length xs \<and> key < xs ! a \<longrightarrow> key < xs ! b"
  using assms by (meson less_le_trans sorted_nth_mono)

lemma sorted_ge_mono:
  assumes "sorted xs"
  shows "\<forall>a b. a \<le> b \<and> b < length xs \<and> key \<le> xs ! a \<longrightarrow> key \<le> xs ! b"
  using assms by (meson order_trans sorted_nth_mono)

section \<open>What every reachable string ring satisfies\<close>

lemma lookup_foldl_fmupd:
  "fmlookup (foldl (\<lambda>m i. fmupd (f i) v m) m0 xs) p =
     (if p \<in> f ` set xs then Some v else fmlookup m0 p)"
  by (induction xs arbitrary: m0) auto

lemma lookup_foldl_fmdrop:
  "fmlookup (foldl (\<lambda>m i. fmdrop (f i) m) m0 xs) p =
     (if p \<in> f ` set xs then None else fmlookup m0 p)"
  by (induction xs arbitrary: m0) auto

lemma add_result:
  assumes "config_ok c"
  shows "add c elt = Inr (c\<lparr> circle := foldl (\<lambda>m i. fmupd (hashKey c (eltKey elt i)) elt m)
                                   (circle c) (loop_indices (NumberOfReplicas c)),
                         members := fmupd elt True (members c),
                         sortedHashes := sorted_list_of_fset (fmdom
                            (foldl (\<lambda>m i. fmupd (hashKey c (eltKey elt i)) elt m)
                                   (circle c) (loop_indices (NumberOfReplicas c)))),
                         count := count c + 1 \<rparr>)"
  using assms by (simp add: add_def updateSortedHashes_def config_ok_def Let_def)

lemma remove_result:
  assumes "config_ok c"
  shows "remove c elt = Inr (c\<lparr> circle := foldl (\<lambda>m i. fmdrop (hashKey c (eltKey elt i)) m)
                                   (circle c) (loop_indices (NumberOfReplicas c)),
                         members := fmdrop elt (members c),
                         sortedHashes := sorted_list_of_fset (fmdom
                            (foldl (\<lambda>m i. fmdrop (hashKey c (eltKey elt i)) m)
                                   (circle c) (loop_indices (NumberOfReplicas c)))),
                         count := count c - 1 \<rparr>)"
  using assms by (simp add: remove_def updateSortedHashes_def config_ok_def Let_def)

lemma positions_of_cong:
  "UseFnv c' = UseFnv c \<Longrightarrow> NumberOfReplicas c' = NumberOfReplicas c \<Longrightarrow>
   positions_of c' = positions_of c"
  by (rule ext) (simp add: positions_of_def hashKey_def)

lemma set_positions_of:
  "set (positions_of c elt) = (\<lambda>i. hashKey c (eltKey elt i)) ` set (loop_indices (NumberOfReplicas c))"
  by (simp add: positions_of_def)

lemma good_New: "good New"
  by (simp add: good_def config_ok_def ring_ok_def occupants_registered_def New_def
        sorted_list_of_fset.rep_eq)

lemma good_add:
  assumes "good c"
  shows "\<exists>c'. add c elt = Inr c' \<and> good c'"
proof -
  from assms have cfg: "config_ok c" and reg: "occupants_registered c"
    by (simp_all add: good_def)
  let ?c' = "c\<lparr> circle := foldl (\<lambda>m i. fmupd (hashKey c (eltKey elt i)) elt m)
                                   (circle c) (loop_indices (NumberOfReplicas c)),
                         members := fmupd elt True (members c),
                         sortedHashes := sorted_list_of_fset (fmdom
                            (foldl (\<lambda>m i. fmupd (hashKey c (eltKey elt i)) elt m)
                                   (circle c) (loop_indices (NumberOfReplicas c)))),
                         count := count c + 1 \<rparr>"
  have pos: "positions_of ?c' = positions_of c"
    by (rule positions_of_cong) simp_all
  have "occupants_registered ?c'"
    unfolding occupants_registered_def pos
    using reg
    by (auto simp: lookup_foldl_fmupd set_positions_of occupants_registered_def split: if_splits)
  moreover have "config_ok ?c'" using cfg by (simp add: config_ok_def)
  moreover have "ring_ok ?c'" by (simp add: ring_ok_def)
  ultimately show ?thesis using add_result[OF cfg, of elt] by (simp add: good_def)
qed

lemma good_remove:
  assumes "good c"
  shows "\<exists>c'. remove c elt = Inr c' \<and> good c'"
proof -
  from assms have cfg: "config_ok c" and reg: "occupants_registered c"
    by (simp_all add: good_def)
  let ?c' = "c\<lparr> circle := foldl (\<lambda>m i. fmdrop (hashKey c (eltKey elt i)) m)
                                   (circle c) (loop_indices (NumberOfReplicas c)),
                         members := fmdrop elt (members c),
                         sortedHashes := sorted_list_of_fset (fmdom
                            (foldl (\<lambda>m i. fmdrop (hashKey c (eltKey elt i)) m)
                                   (circle c) (loop_indices (NumberOfReplicas c)))),
                         count := count c - 1 \<rparr>"
  have pos: "positions_of ?c' = positions_of c"
    by (rule positions_of_cong) simp_all
  have "occupants_registered ?c'"
    unfolding occupants_registered_def pos
  proof (intro allI impI)
    fix p e assume a: "fmlookup (circle ?c') p = Some e"
    then have np: "p \<notin> set (positions_of c elt)" and old: "fmlookup (circle c) p = Some e"
      by (auto simp: lookup_foldl_fmdrop set_positions_of split: if_splits)
    from reg old have m: "e |\<in>| fmdom (members c)" and pe: "p \<in> set (positions_of c e)"
      by (auto simp: occupants_registered_def)
    from np pe have "e \<noteq> elt" by auto
    with m pe show "e |\<in>| fmdom (members ?c') \<and> p \<in> set (positions_of c e)"
      by simp
  qed
  moreover have "config_ok ?c'" using cfg by (simp add: config_ok_def)
  moreover have "ring_ok ?c'" by (simp add: ring_ok_def)
  ultimately show ?thesis using remove_result[OF cfg, of elt] by (simp add: good_def)
qed

lemma good_Set_remove_loop:
  "good c \<Longrightarrow> \<exists>c'. Set_remove_loop ks elts c = Inr c' \<and> good c'"
proof (induction ks arbitrary: c)
  case Nil
  then show ?case by simp
next
  case (Cons k ks)
  show ?case
  proof (cases "k \<in> set elts")
    case True
    with Cons show ?thesis by simp
  next
    case False
    from good_remove[OF Cons.prems, of k] obtain c1 where "remove c k = Inr c1" "good c1" by blast
    with Cons.IH[of c1] False show ?thesis by simp
  qed
qed

lemma good_Set_add_loop:
  "good c \<Longrightarrow> \<exists>c'. Set_add_loop vs c = Inr c' \<and> good c'"
proof (induction vs arbitrary: c)
  case Nil
  then show ?case by simp
next
  case (Cons v vs)
  show ?case
  proof (cases "v |\<in>| fmdom (members c)")
    case True
    with Cons show ?thesis by simp
  next
    case False
    from good_add[OF Cons.prems, of v] obtain c1 where "add c v = Inr c1" "good c1" by blast
    with Cons.IH[of c1] False show ?thesis by simp
  qed
qed

lemma good_Set:
  assumes "good c"
  shows "\<exists>c'. Set c elts = Inr c' \<and> good c'"
proof -
  from good_Set_remove_loop[OF assms] obtain c1
    where "Set_remove_loop (sorted_list_of_fset (fmdom (members c))) elts c = Inr c1" "good c1"
    by blast
  with good_Set_add_loop[of c1 elts] show ?thesis by (simp add: Set_def)
qed

lemma good_apply_op:
  assumes "good c"
  shows "\<exists>c'. apply_op c x = Inr c' \<and> good c'"
  using assms good_add good_remove good_Set
  by (cases x) (simp_all add: Add_def Remove_def)

lemma good_run:
  "good c \<Longrightarrow> \<exists>c'. run c xs = Inr c' \<and> good c'"
proof (induction xs arbitrary: c)
  case Nil
  then show ?case by simp
next
  case (Cons x xs)
  from good_apply_op[OF Cons.prems, of x] obtain c1 where "apply_op c x = Inr c1" "good c1" by blast
  with Cons.IH[of c1] show ?case by simp
qed

lemma ring_ok_sorted_distinct:
  "ring_ok c \<Longrightarrow> sorted (sortedHashes c) \<and> distinct (sortedHashes c)"
  by (simp add: ring_ok_def sorted_list_of_fset.rep_eq)

section \<open>What every reachable node ring satisfies\<close>

lemma sorted_cut:
  "sorted xs \<Longrightarrow> sorted (take i xs @ drop (i + 1) xs)"
proof (induction xs arbitrary: i)
  case Nil
  then show ?case by simp
next
  case (Cons x xs)
  show ?case
  proof (cases i)
    case 0
    with Cons.prems show ?thesis by simp
  next
    case (Suc k)
    from Cons.prems have "sorted xs" and le: "\<forall>y \<in> set xs. x \<le> y" by simp_all
    from Cons.IH[OF \<open>sorted xs\<close>, of k] have "sorted (take k xs @ drop (k + 1) xs)" .
    moreover have "\<forall>y \<in> set (take k xs @ drop (k + 1) xs). x \<le> y"
      using le by (auto dest: in_set_takeD in_set_dropD)
    ultimately show ?thesis using Suc by simp
  qed
qed

lemma removeRingNode_fields [simp]:
  "keys (removeRingNode h hash r) = keys h"
  "nodes (removeRingNode h hash r) = nodes h"
  "hashFunc (removeRingNode h hash r) = hashFunc h"
  "replicas (removeRingNode h hash r) = replicas h"
  by (simp_all add: removeRingNode_def Let_def split: option.splits)

lemma removeRingNode_lookup:
  "fmlookup (ring (removeRingNode h hash r)) p =
     (if p = hash
      then (case fmlookup (ring h) hash of
              None \<Rightarrow> None
            | Some ns \<Rightarrow> (if filter (\<lambda>x. repr x \<noteq> r) ns = [] then None
                         else Some (filter (\<lambda>x. repr x \<noteq> r) ns)))
      else fmlookup (ring h) p)"
  by (simp add: removeRingNode_def Let_def split: option.splits)

lemma Remove_step_fields [simp]:
  "nodes (Remove_step r h i) = nodes h"
  "hashFunc (Remove_step r h i) = hashFunc h"
  "replicas (Remove_step r h i) = replicas h"
  by (simp_all add: Remove_step_def Let_def)

lemma hgood_Remove_step:
  assumes "hgood h"
  shows "hgood (Remove_step r h i)"
proof -
  let ?hash = "hashFunc h (r @ Itoa i)"
  let ?index = "sort_Search (length (keys h)) (\<lambda>j. keys h ! j \<ge> ?hash)"
  let ?h1 = "(if ?index < length (keys h)
                then h\<lparr> keys := take ?index (keys h) @ drop (?index + 1) (keys h) \<rparr>
                else h)"
  have eq: "Remove_step r h i = removeRingNode ?h1 ?hash r"
    by (simp add: Remove_step_def Let_def)
  from assms have s: "sorted (keys h)" by (simp add: hgood_def)
  have "sorted (keys ?h1)" using s sorted_cut[OF s, of ?index] by simp
  moreover have "ring ?h1 = ring h" "nodes ?h1 = nodes h" by simp_all
  ultimately show ?thesis
    using assms unfolding eq hgood_def
    by (auto simp: removeRingNode_lookup split: if_splits option.splits)
qed

lemma hgood_foldl_Remove_step:
  "hgood h \<Longrightarrow> hgood (foldl (Remove_step r) h xs)"
  by (induction xs arbitrary: h) (simp_all add: hgood_Remove_step)

lemma nodes_foldl_Remove_step [simp]:
  "nodes (foldl (Remove_step r) h xs) = nodes h"
  by (induction xs arbitrary: h) simp_all

lemma replicas_foldl_Remove_step [simp]:
  "replicas (foldl (Remove_step r) h xs) = replicas h"
  by (induction xs arbitrary: h) simp_all

lemma hashFunc_foldl_Remove_step [simp]:
  "hashFunc (foldl (Remove_step r) h xs) = hashFunc h"
  by (induction xs arbitrary: h) simp_all

lemma hgood_Remove:
  "hgood h \<Longrightarrow> hgood (ConsistentHash_Remove h nd)"
  by (simp add: ConsistentHash_Remove_def Let_def hgood_foldl_Remove_step)

lemma nodes_Remove [simp]: "nodes (ConsistentHash_Remove h nd) = nodes h"
  by (simp add: ConsistentHash_Remove_def Let_def)

lemma replicas_Remove [simp]: "replicas (ConsistentHash_Remove h nd) = replicas h"
  by (simp add: ConsistentHash_Remove_def Let_def)

lemma hashFunc_Remove [simp]: "hashFunc (ConsistentHash_Remove h nd) = hashFunc h"
  by (simp add: ConsistentHash_Remove_def Let_def)

text \<open>Everything but sortedness of the keys, which the final sort restores.\<close>

lemma AddWithReplicas_step_fields [simp]:
  "nodes (AddWithReplicas_step nd r h i) = nodes h"
  "hashFunc (AddWithReplicas_step nd r h i) = hashFunc h"
  "replicas (AddWithReplicas_step nd r h i) = replicas h"
  by (simp_all add: AddWithReplicas_step_def Let_def)

lemma occ_AddWithReplicas_step:
  assumes "\<forall>p ns. fmlookup (ring h) p = Some ns \<longrightarrow>
             ns \<noteq> [] \<and> (\<forall>x \<in> set ns. repr x |\<in>| fmdom (nodes h))"
    and "repr nd |\<in>| fmdom (nodes h)"
  shows "\<forall>p ns. fmlookup (ring (AddWithReplicas_step nd r h i)) p = Some ns \<longrightarrow>
             ns \<noteq> [] \<and> (\<forall>x \<in> set ns. repr x |\<in>| fmdom (nodes (AddWithReplicas_step nd r h i)))"
proof (intro allI impI)
  fix p ns
  assume a: "fmlookup (ring (AddWithReplicas_step nd r h i)) p = Some ns"
  let ?hash = "hashFunc h (r @ Itoa i)"
  show "ns \<noteq> [] \<and> (\<forall>x \<in> set ns. repr x |\<in>| fmdom (nodes (AddWithReplicas_step nd r h i)))"
  proof (cases "p = ?hash")
    case False
    with a have "fmlookup (ring h) p = Some ns"
      by (simp add: AddWithReplicas_step_def Let_def)
    with assms(1) show ?thesis by simp
  next
    case True
    show ?thesis
    proof (cases "fmlookup (ring h) ?hash")
      case None
      with a True have "ns = [nd]" by (simp add: AddWithReplicas_step_def Let_def)
      with assms(2) show ?thesis by simp
    next
      case (Some old)
      with a True have "ns = old @ [nd]" by (simp add: AddWithReplicas_step_def Let_def)
      moreover from assms(1) Some have "\<forall>x \<in> set old. repr x |\<in>| fmdom (nodes h)" by simp
      ultimately show ?thesis using assms(2) by simp
    qed
  qed
qed

lemma nodes_foldl_AddWithReplicas_step [simp]:
  "nodes (foldl (AddWithReplicas_step nd r) h xs) = nodes h"
  by (induction xs arbitrary: h) simp_all

lemma occ_foldl_AddWithReplicas_step:
  assumes "\<forall>p ns. fmlookup (ring h) p = Some ns \<longrightarrow>
             ns \<noteq> [] \<and> (\<forall>x \<in> set ns. repr x |\<in>| fmdom (nodes h))"
    and "repr nd |\<in>| fmdom (nodes h)"
  shows "\<forall>p ns. fmlookup (ring (foldl (AddWithReplicas_step nd r) h xs)) p = Some ns \<longrightarrow>
             ns \<noteq> [] \<and> (\<forall>x \<in> set ns. repr x |\<in>| fmdom (nodes h))"
  using assms
proof (induction xs arbitrary: h)
  case Nil
  then show ?case by simp
next
  case (Cons i xs)
  have "nodes (AddWithReplicas_step nd r h i) = nodes h" by simp
  with Cons.IH[of "AddWithReplicas_step nd r h i"]
       occ_AddWithReplicas_step[OF Cons.prems, of r i] Cons.prems(2)
  show ?case by simp
qed

lemma hgood_AddWithReplicas:
  assumes "hgood h"
  shows "hgood (AddWithReplicas h nd r0)"
proof -
  let ?h = "ConsistentHash_Remove h nd"
  let ?r1 = "(if sint r0 > sint (replicas ?h) then replicas ?h else r0)"
  let ?h1 = "addNode ?h (repr nd)"
  let ?h2 = "foldl (AddWithReplicas_step nd (repr nd)) ?h1 (loop_indices ?r1)"
  have eq: "AddWithReplicas h nd r0 = ?h2\<lparr> keys := sort (keys ?h2) \<rparr>"
    by (simp add: AddWithReplicas_def Let_def)
  from hgood_Remove[OF assms] have g: "hgood ?h" .
  have a1: "\<forall>p ns. fmlookup (ring ?h1) p = Some ns \<longrightarrow>
             ns \<noteq> [] \<and> (\<forall>x \<in> set ns. repr x |\<in>| fmdom (nodes ?h1))"
    using g by (auto simp: hgood_def addNode_def)
  have a2: "repr nd |\<in>| fmdom (nodes ?h1)" by (simp add: addNode_def)
  from occ_foldl_AddWithReplicas_step[OF a1 a2, of "repr nd" "loop_indices ?r1"]
  have "\<forall>p ns. fmlookup (ring ?h2) p = Some ns \<longrightarrow>
             ns \<noteq> [] \<and> (\<forall>x \<in> set ns. repr x |\<in>| fmdom (nodes ?h1))" .
  moreover have "nodes ?h2 = nodes ?h1" by simp
  ultimately show ?thesis unfolding eq hgood_def by simp
qed

lemma hgood_New: "hgood (NewCustomConsistentHash Hash r fn)"
  by (simp add: hgood_def NewCustomConsistentHash_def Let_def)

lemma hgood_apply_hop: "hgood h \<Longrightarrow> hgood (apply_hop h x)"
  by (cases x) (simp_all add: hgood_AddWithReplicas hgood_Remove ConsistentHash_Add_def AddWithWeight_def)

lemma hgood_hrun: "hgood h \<Longrightarrow> hgood (hrun h xs)"
  unfolding hrun_def by (induction xs arbitrary: h) (simp_all add: hgood_apply_hop)

section \<open>The position sequence\<close>

text \<open>
  C5 (amended).  After every sequence of mutations of a fresh ring, the position sequence is
  sorted ascending.  In the string ring it also holds no value twice, and no mutation fails;
  in the node ring the sequence may repeat a value, since every replica appends its hash.
\<close>

theorem positions_sorted:
  "(\<exists>c. run New ops = Inr c \<and> sorted (sortedHashes c) \<and> distinct (sortedHashes c))
   \<and> sorted (keys (hrun (NewCustomConsistentHash Hash r fn) hops))"
proof
  from good_run[OF good_New, of ops] obtain c where "run New ops = Inr c" "good c" by blast
  then show "\<exists>c. run New ops = Inr c \<and> sorted (sortedHashes c) \<and> distinct (sortedHashes c)"
    using ring_ok_sorted_distinct[of c] by (auto simp: good_def)
next
  from hgood_hrun[OF hgood_New] show "sorted (keys (hrun (NewCustomConsistentHash Hash r fn) hops))"
    by (simp add: hgood_def)
qed

lemma Itoa_small:
  "Itoa 0 = ''0''" "Itoa 1 = ''1''" "Itoa 2 = ''2''" "Itoa 3 = ''3''" "Itoa 4 = ''4''"
  "Itoa 5 = ''5''" "Itoa 6 = ''6''" "Itoa 7 = ''7''" "Itoa 8 = ''8''" "Itoa 9 = ''9''"
  "Itoa 10 = ''10''"
  by code_simp+

theorem keys_repeat_counterexample:
  "repr (StringNode ''a'') @ Itoa 10 = repr (StringNode ''a1'') @ Itoa 0
   \<and> \<not> distinct (keys nodes_a_a1)"
  by code_simp

section \<open>Registered identities and occupants\<close>

text \<open>
  C6 (amended).  After every sequence of mutations of a fresh node ring, every node that
  occupies a ring position has its identity in the registered set.  The converse is not
  claimed: \<open>AddWithWeight\<close> with weight 0 registers an identity and places no replica.
\<close>

theorem occupants_are_registered:
  assumes "fmlookup (ring (hrun (NewCustomConsistentHash Hash r fn) hops)) p = Some ns"
    and "x \<in> set ns"
  shows "repr x |\<in>| fmdom (nodes (hrun (NewCustomConsistentHash Hash r fn) hops))"
  using hgood_hrun[OF hgood_New, of Hash r fn hops] assms
  by (simp add: hgood_def)

theorem occupants_are_registered_witness:
  "fmlookup (ring node_a_once) (fnv64a ''a0'') = Some [StringNode ''a'']
   \<and> StringNode ''a'' \<in> set [StringNode ''a'']
   \<and> repr (StringNode ''a'') |\<in>| fmdom (nodes node_a_once)"
proof -
  have l: "fmlookup (ring (hrun (NewCustomConsistentHash fnv64a 100 (Some fnv64a))
                   [HopAddWithReplicas (StringNode ''a'') 1])) (fnv64a ''a0'') = Some [StringNode ''a'']"
    by code_simp
  have m: "StringNode ''a'' \<in> set [StringNode ''a'']" by simp
  from occupants_are_registered[OF l m] l m show ?thesis
    by (simp add: node_a_once_def)
qed

theorem weight0_counterexample:
  "repr (StringNode ''a'') |\<in>| fmdom (nodes node_weight0) \<and> len_map (ring node_weight0) = 0"
  by code_simp

section \<open>Adding twice, removing a stranger\<close>

lemma foldl_fmupd_twice:
  "foldl (\<lambda>m i. fmupd (f i) v m) (foldl (\<lambda>m i. fmupd (f i) v m) m0 xs) xs
     = foldl (\<lambda>m i. fmupd (f i) v m) m0 xs"
  by (rule fmap_ext) (simp add: lookup_foldl_fmupd)

lemma hashKey_cong: "UseFnv c' = UseFnv c \<Longrightarrow> hashKey c' = hashKey c"
  by (rule ext) (simp add: hashKey_def)

lemma add_add:
  assumes "config_ok c" and "add c elt = Inr c1"
  shows "\<exists>c2. add c1 elt = Inr c2 \<and> circle c2 = circle c1 \<and> members c2 = members c1
              \<and> sortedHashes c2 = sortedHashes c1 \<and> count c2 = count c1 + 1"
proof -
  define c1' where "c1' = c\<lparr> circle := foldl (\<lambda>m i. fmupd (hashKey c (eltKey elt i)) elt m)
                                   (circle c) (loop_indices (NumberOfReplicas c)),
                         members := fmupd elt True (members c),
                         sortedHashes := sorted_list_of_fset (fmdom
                            (foldl (\<lambda>m i. fmupd (hashKey c (eltKey elt i)) elt m)
                                   (circle c) (loop_indices (NumberOfReplicas c)))),
                         count := count c + 1 \<rparr>"
  have "add c elt = Inr c1'" unfolding c1'_def by (rule add_result[OF assms(1)])
  with assms(2) have c1: "c1 = c1'" by simp
  have cfg: "config_ok c1" using assms(1) by (simp add: c1 c1'_def config_ok_def)
  have n: "NumberOfReplicas c1 = NumberOfReplicas c" by (simp add: c1 c1'_def)
  have hk: "hashKey c1 = hashKey c" by (rule hashKey_cong) (simp add: c1 c1'_def)
  have cc: "circle c1 = foldl (\<lambda>m i. fmupd (hashKey c (eltKey elt i)) elt m)
                                   (circle c) (loop_indices (NumberOfReplicas c))"
    by (simp add: c1 c1'_def)
  have circ: "foldl (\<lambda>m i. fmupd (hashKey c1 (eltKey elt i)) elt m)
                 (circle c1) (loop_indices (NumberOfReplicas c1)) = circle c1"
    unfolding hk n cc by (rule foldl_fmupd_twice)
  have sh: "sortedHashes c1 = sorted_list_of_fset (fmdom (circle c1))"
    by (simp add: c1 c1'_def)
  have mem: "fmupd elt True (members c1) = members c1"
    by (simp add: c1 c1'_def)
  have "add c1 elt = Inr (c1\<lparr> circle := circle c1, members := members c1,
                               sortedHashes := sortedHashes c1, count := count c1 + 1 \<rparr>)"
    using add_result[OF cfg, of elt] unfolding circ mem sh[symmetric] .
  then show ?thesis by simp
qed

lemma config_ok_New: "config_ok New"
  by (simp add: config_ok_def New_def)

lemma Add_New_ring_one: "Add New ''abcdefg'' = Inr ring_one"
  using add_result[OF config_ok_New, of "''abcdefg''"] by (simp add: ring_one_def Add_def)

lemma count_ring_one: "count ring_one = 1"
  using add_result[OF config_ok_New, of "''abcdefg''"] by (simp add: ring_one_def Add_def New_def)

lemma members_ring_one: "members ring_one = fmupd ''abcdefg'' True fmempty"
  using add_result[OF config_ok_New, of "''abcdefg''"] by (simp add: ring_one_def Add_def New_def)

lemma good_ring_one: "good ring_one"
  using good_add[OF good_New, of "''abcdefg''"] Add_New_ring_one by (simp add: Add_def)

text \<open>
  C3, at \<open>Add("abcdefg"); Add("abcdefg")\<close> on a fresh ring: the second \<open>Add\<close> leaves the
  circle, the members and the position sequence as they are and counts the node again.
\<close>

theorem readd_counts_twice:
  "Add New ''abcdefg'' = Inr ring_one \<and> count ring_one = 1 \<and>
   (\<exists>c. Add ring_one ''abcdefg'' = Inr c \<and> count c = 2 \<and> circle c = circle ring_one
         \<and> members c = members ring_one \<and> sortedHashes c = sortedHashes ring_one)"
proof -
  have "add New ''abcdefg'' = Inr ring_one" using Add_New_ring_one by (simp add: Add_def)
  from add_add[OF config_ok_New this] count_ring_one Add_New_ring_one
  show ?thesis by (auto simp: Add_def)
qed

text \<open>
  C4, at \<open>Remove("aaa")\<close> on the ring that holds only \<open>"abcdefg"\<close>: the call ends without
  an error, but the count drops from 1 to 0 while \<open>"abcdefg"\<close> is still a member.
\<close>

theorem remove_stranger_decrements:
  "fmlookup (members ring_one) ''aaa'' = None \<and> count ring_one = 1 \<and>
   (\<exists>c. Remove ring_one ''aaa'' = Inr c \<and> count c = 0
         \<and> fmlookup (members c) ''abcdefg'' = Some True)"
proof -
  from good_ring_one have "config_ok ring_one" by (simp add: good_def)
  from remove_result[OF this, of "''aaa''"] count_ring_one members_ring_one
  show ?thesis by (simp add: Remove_def)
qed

section \<open>Which position a lookup selects\<close>

lemma sort_Search_least:
  assumes "\<forall>a b. a \<le> b \<and> b < n \<and> f a \<longrightarrow> f b"
  shows "sort_Search n f = (if \<exists>k<n. f k then (LEAST k. k < n \<and> f k) else n)"
proof -
  let ?r = "sort_Search n f"
  from sort_Search_spec[OF assms]
  have le: "?r \<le> n" and below: "\<forall>k < ?r. \<not> f k" and at: "?r < n \<longrightarrow> f ?r" by simp_all
  show ?thesis
  proof (cases "\<exists>k<n. f k")
    case True
    then obtain k where k: "k < n" "f k" by blast
    with below have "?r \<le> k" by (meson not_less)
    with k at have r: "?r < n \<and> f ?r" by simp
    have "(LEAST k. k < n \<and> f k) = ?r"
    proof (rule Least_equality)
      show "?r < n \<and> f ?r" by (rule r)
    next
      fix y assume "y < n \<and> f y"
      with below show "?r \<le> y" by (meson not_less)
    qed
    with True show ?thesis by simp
  next
    case False
    with at le have "?r = n" by (meson le_neq_implies_less)
    then show ?thesis unfolding if_not_P[OF False] .
  qed
qed

lemma search_least:
  assumes "sorted (sortedHashes c)"
  shows "search c key =
           (if \<exists>k<length (sortedHashes c). key < sortedHashes c ! k
            then (LEAST k. k < length (sortedHashes c) \<and> key < sortedHashes c ! k) else 0)"
proof -
  let ?xs = "sortedHashes c"
  have eq: "sort_Search (length ?xs) (\<lambda>x. ?xs ! x > key) =
          (if \<exists>k<length ?xs. key < ?xs ! k then (LEAST k. k < length ?xs \<and> key < ?xs ! k) else length ?xs)"
    by (rule sort_Search_least) (use sorted_gt_mono[OF assms] in blast)
  show ?thesis
  proof (cases "\<exists>k<length ?xs. key < ?xs ! k")
    case True
    then obtain k where k: "k < length ?xs \<and> key < ?xs ! k" by blast
    have "(LEAST k. k < length ?xs \<and> key < ?xs ! k) < length ?xs"
      using LeastI[of "\<lambda>k. k < length ?xs \<and> key < ?xs ! k", OF k] by simp
    with eq show ?thesis unfolding if_P[OF True] by (simp add: search_def Let_def)
  next
    case False
    from eq show ?thesis unfolding if_not_P[OF False] by (simp add: search_def Let_def)
  qed
qed

lemma selected_index_least:
  assumes "sorted (keys h)" and "keys h \<noteq> []"
  shows "selected_index h hash =
           (if \<exists>k<length (keys h). hash \<le> keys h ! k
            then (LEAST k. k < length (keys h) \<and> hash \<le> keys h ! k) else 0)"
proof -
  let ?xs = "keys h"
  have eq: "sort_Search (length ?xs) (\<lambda>x. hash \<le> ?xs ! x) =
          (if \<exists>k<length ?xs. hash \<le> ?xs ! k then (LEAST k. k < length ?xs \<and> hash \<le> ?xs ! k) else length ?xs)"
    by (rule sort_Search_least) (use sorted_ge_mono[OF assms(1)] in blast)
  show ?thesis
  proof (cases "\<exists>k<length ?xs. hash \<le> ?xs ! k")
    case True
    then obtain k where k: "k < length ?xs \<and> hash \<le> ?xs ! k" by blast
    have "(LEAST k. k < length ?xs \<and> hash \<le> ?xs ! k) < length ?xs"
      using LeastI[of "\<lambda>k. k < length ?xs \<and> hash \<le> ?xs ! k", OF k] by simp
    with eq show ?thesis unfolding if_P[OF True] by (simp add: selected_index_def)
  next
    case False
    from eq show ?thesis unfolding if_not_P[OF False] by (simp add: selected_index_def)
  qed
qed

lemma search_in_range:
  assumes "sortedHashes c \<noteq> []"
  shows "search c key < length (sortedHashes c)"
  using assms by (simp add: search_def Let_def)

lemma length_sorted_list_of_fset: "length (sorted_list_of_fset A) = fcard A"
  by (simp add: sorted_list_of_fset.rep_eq fcard.rep_eq)

lemma ring_ok_length: "ring_ok c \<Longrightarrow> length (sortedHashes c) = len_map (circle c)"
  by (simp add: ring_ok_def len_map_def length_sorted_list_of_fset)

lemma Get_selected:
  assumes "ring_ok c" and "len_map (circle c) \<noteq> 0"
  shows "Get c name = Inr (circle_at c (selected c (hashKey c name)))"
proof -
  from assms ring_ok_length[OF assms(1)] have "sortedHashes c \<noteq> []" by auto
  from search_in_range[OF this, of "hashKey c name"]
  have "\<not> length (sortedHashes c) \<le> search c (hashKey c name)" by (simp add: not_le)
  with assms(2) show ?thesis
    by (simp add: Get_def Let_def selected_def)
qed

lemma ConsistentHash_Get_selected:
  assumes "len_map (ring h) \<noteq> 0" and "keys h \<noteq> []"
  shows "ConsistentHash_Get h v =
           Inr (case fmlookup (ring h) (keys h ! selected_index h (hashFunc h (repr v))) of
                  None \<Rightarrow> None
                | Some ns \<Rightarrow>
                    (if length ns = 0 then None
                     else if length ns = 1 then Some (ns ! 0)
                     else Some (ns ! (unat (hashFunc h (innerRepr v)) mod length ns))))"
  using assms
  by (simp add: ConsistentHash_Get_def Let_def selected_index_def split: option.splits)

lemma filter_eq_drop:
  assumes "\<forall>k<r. \<not> P (xs ! k)" and "\<forall>k. r \<le> k \<and> k < length xs \<longrightarrow> P (xs ! k)"
  shows "filter P xs = drop r xs"
proof -
  have "filter P (take r xs) = []"
    using assms(1) by (auto simp: filter_empty_conv in_set_conv_nth)
  moreover have "filter P (drop r xs) = drop r xs"
    using assms(2) by (auto simp: filter_id_conv in_set_conv_nth)
  moreover have "filter P xs = filter P (take r xs) @ filter P (drop r xs)"
    by (simp only: filter_append[symmetric] append_take_drop_id)
  ultimately show ?thesis by simp
qed

lemma selected_filter:
  assumes "sorted (sortedHashes c)" and "sortedHashes c \<noteq> []"
  shows "selected c key =
           (case filter (\<lambda>p. key < p) (sortedHashes c) of
              [] \<Rightarrow> hd (sortedHashes c)
            | q # _ \<Rightarrow> q)"
proof -
  define xs where "xs = sortedHashes c"
  define r where "r = sort_Search (length xs) (\<lambda>x. xs ! x > key)"
  have mono: "\<forall>a b. a \<le> b \<and> b < length xs \<and> key < xs ! a \<longrightarrow> key < xs ! b"
    using sorted_gt_mono[OF assms(1)] unfolding xs_def by blast
  from sort_Search_spec[OF mono]
  have le: "r \<le> length xs" and below: "\<forall>k < r. \<not> key < xs ! k"
    and at: "r < length xs \<longrightarrow> key < xs ! r"
    unfolding r_def by blast+
  have above: "\<forall>k. r \<le> k \<and> k < length xs \<longrightarrow> key < xs ! k"
  proof (intro allI impI)
    fix k assume k: "r \<le> k \<and> k < length xs"
    then have "r < length xs" by simp
    with at have "key < xs ! r" by simp
    with mono k show "key < xs ! k" by blast
  qed
  have fd: "filter (\<lambda>p. key < p) xs = drop r xs"
    using below above by (rule filter_eq_drop)
  have sel: "selected c key = xs ! (if r \<ge> length xs then 0 else r)"
    by (simp add: selected_def search_def Let_def xs_def r_def)
  show ?thesis
  proof (cases "r < length xs")
    case True
    then have "drop r xs = xs ! r # drop (Suc r) xs" by (simp add: Cons_nth_drop_Suc)
    with True show ?thesis unfolding sel xs_def[symmetric] fd by simp
  next
    case False
    with le have "r = length xs" by simp
    then show ?thesis unfolding sel xs_def[symmetric] fd using assms(2)
      by (simp add: hd_conv_nth xs_def)
  qed
qed

text \<open>The ring after one \<open>Add("abcdefg")\<close>, computed.\<close>

lemma hashKeyCRC32_eq: "hashKeyCRC32 key = ChecksumIEEE key"
  by (simp add: hashKeyCRC32_def copy_bytes_def)

lemma crc32_update_unfold:
  "crc32_update crc b =
     crc32_step (crc32_step (crc32_step (crc32_step (crc32_step (crc32_step (crc32_step (crc32_step
       (crc XOR of_nat (of_char b)))))))))"
  by (simp add: crc32_update_def eval_nat_numeral funpow_swap1)

lemma Itoa_teens:
  "Itoa 11 = ''11''" "Itoa 12 = ''12''" "Itoa 13 = ''13''" "Itoa 14 = ''14''" "Itoa 15 = ''15''"
  "Itoa 16 = ''16''" "Itoa 17 = ''17''" "Itoa 18 = ''18''" "Itoa 19 = ''19''"
  by code_simp+

lemma loop_indices_20: "loop_indices 20 = [0, 1, 2, 3, 4, 5, 6, 7, 8, 9, 10, 11, 12, 13, 14, 15, 16, 17, 18, 19]"
  by code_simp

lemma fmdom_foldl_fmupd:
  "fmdom (foldl (\<lambda>m i. fmupd (f i) v m) m0 xs) = fset_of_list (map f xs) |\<union>| fmdom m0"
  by (induction xs arbitrary: m0) auto

lemma sorted_list_of_fset_of_list: "sorted_list_of_fset (fset_of_list xs) = sort (remdups xs)"
  by (simp add: sorted_list_of_fset.rep_eq fset_of_list.rep_eq sorted_list_of_set_sort_remdups)

lemma hashKey_New: "hashKey New key = ChecksumIEEE key"
  by (simp add: hashKey_def New_def hashKeyCRC32_eq)

lemma circle_ring_one:
  "circle ring_one = foldl (\<lambda>m i. fmupd (ChecksumIEEE (eltKey ''abcdefg'' i)) ''abcdefg'' m)
                       fmempty (loop_indices 20)"
  using add_result[OF config_ok_New, of "''abcdefg''"]
  by (simp add: ring_one_def Add_def hashKey_New) (simp add: New_def)

lemma hashKey_ring_one: "hashKey ring_one key = ChecksumIEEE key"
proof -
  have "UseFnv ring_one = UseFnv New"
    using add_result[OF config_ok_New, of "''abcdefg''"] by (simp add: ring_one_def Add_def)
  from hashKey_cong[OF this] hashKey_New show ?thesis by simp
qed

lemma eltKeys_abcdefg:
  "map (eltKey ''abcdefg'') (loop_indices 20) =
     [''0abcdefg'', ''1abcdefg'', ''2abcdefg'', ''3abcdefg'', ''4abcdefg'', ''5abcdefg'', ''6abcdefg'', ''7abcdefg'', ''8abcdefg'', ''9abcdefg'', ''10abcdefg'', ''11abcdefg'', ''12abcdefg'', ''13abcdefg'', ''14abcdefg'', ''15abcdefg'', ''16abcdefg'', ''17abcdefg'', ''18abcdefg'', ''19abcdefg'']"
  by (simp add: loop_indices_20 eltKey_def Itoa_small Itoa_teens)

lemma crc_table_abcdefg:
  "map ChecksumIEEE
     [''0abcdefg'', ''1abcdefg'', ''2abcdefg'', ''3abcdefg'', ''4abcdefg'', ''5abcdefg'', ''6abcdefg'', ''7abcdefg'', ''8abcdefg'', ''9abcdefg'', ''10abcdefg'', ''11abcdefg'', ''12abcdefg'', ''13abcdefg'', ''14abcdefg'', ''15abcdefg'', ''16abcdefg'', ''17abcdefg'', ''18abcdefg'', ''19abcdefg''] =
     [1286158796, 2147694930, 244072113, 3257286191, 3370334006, 71907240, 2328244299,
      1181495509, 2672566905, 1407591143, 4140312218, 979510788, 3035439591, 2017927545,
      1921132640, 3190302974, 816262941, 4228722563, 623721775, 3917954481]"
  by (simp add: ChecksumIEEE_def crc32_update_unfold crc32_step_def)

lemma crc_abcdefg:
  "map (\<lambda>i. ChecksumIEEE (eltKey ''abcdefg'' i)) (loop_indices 20) =
     [1286158796, 2147694930, 244072113, 3257286191, 3370334006, 71907240, 2328244299,
      1181495509, 2672566905, 1407591143, 4140312218, 979510788, 3035439591, 2017927545,
      1921132640, 3190302974, 816262941, 4228722563, 623721775, 3917954481]"
proof -
  have "map (\<lambda>i. ChecksumIEEE (eltKey ''abcdefg'' i)) (loop_indices 20)
          = map ChecksumIEEE (map (eltKey ''abcdefg'') (loop_indices 20))"
    by (simp only: map_map o_def)
  then show ?thesis unfolding eltKeys_abcdefg crc_table_abcdefg .
qed

lemma sortedHashes_ring_one:
  "sortedHashes ring_one =
     [71907240, 244072113, 623721775, 816262941, 979510788, 1181495509, 1286158796, 1407591143,
      1921132640, 2017927545, 2147694930, 2328244299, 2672566905, 3035439591, 3190302974,
      3257286191, 3370334006, 3917954481, 4140312218, 4228722563]"
proof -
  from good_ring_one have "sortedHashes ring_one = sorted_list_of_fset (fmdom (circle ring_one))"
    by (simp add: good_def ring_ok_def)
  also have "\<dots> = sort (remdups (map (\<lambda>i. ChecksumIEEE (eltKey ''abcdefg'' i)) (loop_indices 20)))"
    by (simp only: circle_ring_one fmdom_foldl_fmupd sorted_list_of_fset_of_list
          fmdom_empty funion_fempty_right)
  also have "\<dots> = [71907240, 244072113, 623721775, 816262941, 979510788, 1181495509, 1286158796, 1407591143,
      1921132640, 2017927545, 2147694930, 2328244299, 2672566905, 3035439591, 3190302974,
      3257286191, 3370334006, 3917954481, 4140312218, 4228722563]"
    unfolding crc_abcdefg by simp
  finally show ?thesis .
qed

lemma ring_ok_nonempty:
  assumes "ring_ok c" and "len_map (circle c) \<noteq> 0"
  shows "sortedHashes c \<noteq> []"
  using assms ring_ok_length[OF assms(1)] by auto

lemma len_map_ring_one: "len_map (circle ring_one) = 20"
  using ring_ok_length[of ring_one] good_ring_one sortedHashes_ring_one
  by (simp add: good_def)

lemma len_map_0_lookup: "len_map m = 0 \<Longrightarrow> fmlookup m x = None"
  by (simp add: len_map_def fcard_fempty fmdom_notD)

lemma ConsistentHash_Get_position:
  assumes "keys h \<noteq> []"
  shows "ConsistentHash_Get h v =
           Inr (case fmlookup (ring h) (keys h ! selected_index h (hashFunc h (repr v))) of
                  None \<Rightarrow> None
                | Some ns \<Rightarrow>
                    (if length ns = 0 then None
                     else if length ns = 1 then Some (ns ! 0)
                     else Some (ns ! (unat (hashFunc h (innerRepr v)) mod length ns))))"
proof (cases "len_map (ring h) = 0")
  case True
  from len_map_0_lookup[OF this] True show ?thesis
    by (simp add: ConsistentHash_Get_def)
next
  case False
  from ConsistentHash_Get_selected[OF False assms] show ?thesis .
qed

text \<open>
  C1 (amended).  On a non-empty string ring (consistent.go), \<open>Get\<close> hashes the key and
  reads the occupant of the first position strictly greater than the hash, index 0 when
  there is none: a key whose hash equals a stored position selects the position after it.
  On a node ring (consistent1.go) whose key sequence is not empty, \<open>Get\<close> hashes the key
  and reads the occupants of the first position greater than or equal to the hash, index 0
  when there is none: a key whose hash equals a stored position selects that position.
\<close>

theorem Get_selects_position:
  assumes "ring_ok c" and "len_map (circle c) \<noteq> 0"
    and "sorted (keys h)" and "keys h \<noteq> []"
  shows "Get c name = Inr (circle_at c (sortedHashes c ! search c (hashKey c name)))
       \<and> search c key =
           (if \<exists>k<length (sortedHashes c). key < sortedHashes c ! k
            then (LEAST k. k < length (sortedHashes c) \<and> key < sortedHashes c ! k) else 0)
       \<and> ConsistentHash_Get h v =
           Inr (case fmlookup (ring h) (keys h ! selected_index h (hashFunc h (repr v))) of
                  None \<Rightarrow> None
                | Some ns \<Rightarrow>
                    (if length ns = 0 then None
                     else if length ns = 1 then Some (ns ! 0)
                     else Some (ns ! (unat (hashFunc h (innerRepr v)) mod length ns))))
       \<and> selected_index h hash =
           (if \<exists>k<length (keys h). hash \<le> keys h ! k
            then (LEAST k. k < length (keys h) \<and> hash \<le> keys h ! k) else 0)"
proof -
  from assms(1) have "sorted (sortedHashes c)" by (simp add: ring_ok_sorted_distinct)
  from search_least[OF this]
  have "search c key =
           (if \<exists>k<length (sortedHashes c). key < sortedHashes c ! k
            then (LEAST k. k < length (sortedHashes c) \<and> key < sortedHashes c ! k) else 0)" .
  moreover from Get_selected[OF assms(1,2)]
  have "Get c name = Inr (circle_at c (sortedHashes c ! search c (hashKey c name)))"
    by (simp add: selected_def)
  moreover note ConsistentHash_Get_position[OF assms(4), of v] selected_index_least[OF assms(3,4), of hash]
  ultimately show ?thesis by blast
qed

lemma keys_nodes_a_a1:
  "keys nodes_a_a1 =
     [620381876892546524, 620382976404174735, 620386274939059368, 620387374450687579,
      620388473962315790, 620389573473944001, 620390672985572212, 620391772497200423,
      620392872008828634, 620393971520456845, 16607425055125956117, 16607425055125956117]"
  by code_simp

lemma fnv64a_a3: "fnv64a ''a3'' = 620393971520456845"
  by code_simp

lemma selected_index_a3: "selected_index nodes_a_a1 (fnv64a ''a3'') = 9"
  by code_simp

lemma Get_a3: "ConsistentHash_Get nodes_a_a1 (StringNode ''a3'') = Inr (Some (StringNode ''a''))"
  by code_simp

theorem Get_selects_position_witness:
  "ring_ok ring_one \<and> len_map (circle ring_one) \<noteq> 0
   \<and> sorted (keys nodes_a_a1) \<and> keys nodes_a_a1 \<noteq> []
   \<and> Get ring_one ''ggg'' = Inr (circle_at ring_one
         (sortedHashes ring_one ! search ring_one (hashKey ring_one ''ggg'')))
   \<and> length (keys nodes_a_a1) = 12
   \<and> selected_index nodes_a_a1 (fnv64a ''a3'')
        = (LEAST k. k < length (keys nodes_a_a1) \<and> fnv64a ''a3'' \<le> keys nodes_a_a1 ! k)
   \<and> selected_index nodes_a_a1 (fnv64a ''a3'') = 9
   \<and> keys nodes_a_a1 ! 9 = fnv64a ''a3''
   \<and> ConsistentHash_Get nodes_a_a1 (StringNode ''a3'') = Inr (Some (StringNode ''a''))"
proof -
  have a: "ring_ok ring_one" using good_ring_one by (simp add: good_def)
  have b: "len_map (circle ring_one) \<noteq> 0" by (simp add: len_map_ring_one)
  have c: "sorted (keys nodes_a_a1)" by (simp add: keys_nodes_a_a1)
  have e: "keys nodes_a_a1 \<noteq> []" by (simp add: keys_nodes_a_a1)
  have n: "keys nodes_a_a1 ! 9 = fnv64a ''a3''" by (simp add: keys_nodes_a_a1 fnv64a_a3)
  have ex: "\<exists>k<length (keys nodes_a_a1). fnv64a ''a3'' \<le> keys nodes_a_a1 ! k"
    by (rule exI[of _ 9]) (simp add: keys_nodes_a_a1 fnv64a_a3)
  have l: "length (keys nodes_a_a1) = 12" by (simp add: keys_nodes_a_a1)
  from Get_selects_position[OF a b c e, of "''ggg''" 0 "StringNode ''a3''" "fnv64a ''a3''"]
  have "Get ring_one ''ggg'' = Inr (circle_at ring_one
         (sortedHashes ring_one ! search ring_one (hashKey ring_one ''ggg'')))"
    and "selected_index nodes_a_a1 (fnv64a ''a3'')
        = (LEAST k. k < length (keys nodes_a_a1) \<and> fnv64a ''a3'' \<le> keys nodes_a_a1 ! k)"
    unfolding if_P[OF ex] by blast+
  with a b c e l n selected_index_a3 Get_a3 show ?thesis by blast
qed

text \<open>
  The key \<open>"0abcdefg"\<close> is the string hashed for replica 0 of \<open>"abcdefg"\<close>: its hash is a
  stored position, and the lookup selects the next one.
\<close>

theorem exact_hash_counterexample:
  "hashKey ring_one ''0abcdefg'' = 1286158796
   \<and> hashKey ring_one ''0abcdefg'' \<in> set (sortedHashes ring_one)
   \<and> selected ring_one (hashKey ring_one ''0abcdefg'') = 1407591143"
proof -
  have h: "hashKey ring_one ''0abcdefg'' = 1286158796"
    using crc_table_abcdefg by (simp add: hashKey_ring_one)
  have s: "sorted (sortedHashes ring_one)" "sortedHashes ring_one \<noteq> []"
    by (simp_all add: sortedHashes_ring_one)
  from selected_filter[OF s, of 1286158796] h show ?thesis
    by (simp add: sortedHashes_ring_one)
qed

section \<open>Walking the circle\<close>

text \<open>
  The loops of \<open>GetTwo\<close> and \<open>GetN\<close> hold an index \<open>i\<close> between 1 and the length \<open>L\<close> of
  the sequence, wrap it to 0 when it reaches \<open>L\<close>, and stop when \<open>i\<close> is the start index
  again.  Counting the rounds by \<open>v = start + 1, start + 2, \<dots>\<close>, round \<open>v\<close> enters with
  \<open>i = (v - 1) mod L + 1\<close> and reads index \<open>v mod L\<close>.
\<close>

lemma wrap_index:
  fixes L v :: nat
  assumes "0 < L" and "1 \<le> v"
  shows "(if (v - 1) mod L + 1 \<ge> L then 0 else (v - 1) mod L + 1) = v mod L"
proof -
  from assms(2) obtain m where v: "v = Suc m" by (cases v) simp_all
  have "m mod L < L" using assms(1) by simp
  then show ?thesis unfolding v by (auto simp: mod_Suc)
qed

lemma entry_not_start:
  fixes L v s :: nat
  assumes "s < L" and "s + 1 \<le> v" and "v \<le> s + L - 1"
  shows "(v - 1) mod L + 1 \<noteq> s"
proof (cases "v - 1 < L")
  case True
  then have "(v - 1) mod L = v - 1" by simp
  with assms show ?thesis by simp
next
  case False
  then have ge: "L \<le> v - 1" by simp
  from assms have "v - 1 - L < L" by simp
  then have "(v - 1 - L) mod L = v - 1 - L" by simp
  moreover have "(v - 1) mod L = (v - 1 - L) mod L" using ge by (simp add: le_mod_geq)
  ultimately have "(v - 1) mod L = v - 1 - L" by simp
  with assms ge show ?thesis by simp
qed

lemma occupants_nth:
  "k < length (sortedHashes c) \<Longrightarrow> occupants c ! k = circle_at c (sortedHashes c ! k)"
  by (simp add: occupants_def)

lemma GetTwo_loop_round:
  assumes "len_map (circle c) = L" and "length (sortedHashes c) = L"
    and "s < L" and "s + 1 \<le> v" and "v \<le> s + L - 1"
  shows "GetTwo_loop c a s ((v - 1) mod L + 1) b =
           (if occupants c ! (v mod L) \<noteq> a then Some (Inr (occupants c ! (v mod L)))
            else GetTwo_loop c a s ((v + 1 - 1) mod L + 1) (occupants c ! (v mod L)))"
proof -
  from assms have L: "0 < L" and v1: "1 \<le> v" by simp_all
  have ns: "(v - 1) mod L + 1 \<noteq> s" by (rule entry_not_start[OF assms(3,4,5)])
  have w: "(if (v - 1) mod L + 1 \<ge> L then 0 else (v - 1) mod L + 1) = v mod L"
    by (rule wrap_index[OF L v1])
  have lt: "v mod L < L" using L by simp
  have occ: "circle_at c (sortedHashes c ! (v mod L)) = occupants c ! (v mod L)"
    using lt assms(2) by (simp add: occupants_nth)
  show ?thesis
    apply (subst GetTwo_loop.simps)
    apply (simp only: assms(1) assms(2) ns if_False Let_def w)
    using lt occ by simp
qed

lemma GetTwo_loop_find:
  assumes "len_map (circle c) = L" and "length (sortedHashes c) = L" and "s < L"
    and "s + 1 \<le> v" and "v \<le> w" and "w \<le> s + L - 1"
    and "\<forall>u. v \<le> u \<and> u < w \<longrightarrow> occupants c ! (u mod L) = a"
    and "occupants c ! (w mod L) \<noteq> a"
  shows "GetTwo_loop c a s ((v - 1) mod L + 1) b = Some (Inr (occupants c ! (w mod L)))"
  using assms(4,5,7)
proof (induction "w - v" arbitrary: v b)
  case 0
  then have "v = w" by simp
  with GetTwo_loop_round[OF assms(1,2,3) "0.prems"(1), of a b] assms(6,8)
  show ?case by simp
next
  case (Suc d)
  then have lt: "v < w" by simp
  with Suc.prems(3) have same: "occupants c ! (v mod L) = a" by simp
  from lt assms(6) have vb: "v \<le> s + L - 1" by simp
  have "GetTwo_loop c a s ((v + 1 - 1) mod L + 1) (occupants c ! (v mod L))
          = Some (Inr (occupants c ! (w mod L)))"
  proof (rule Suc.hyps(1))
    show "d = w - (v + 1)" using Suc.hyps(2) by simp
    show "s + 1 \<le> v + 1" using Suc.prems(1) by simp
    show "v + 1 \<le> w" using lt by simp
    show "\<forall>u. v + 1 \<le> u \<and> u < w \<longrightarrow> occupants c ! (u mod L) = a"
      using Suc.prems(3) by simp
  qed
  with GetTwo_loop_round[OF assms(1,2,3) Suc.prems(1) vb, of a b] same
  show ?case by simp
qed

lemma index_as_round:
  fixes L k s :: nat
  assumes "s < L" and "k < L" and "k \<noteq> s"
  shows "\<exists>w. s + 1 \<le> w \<and> w \<le> s + L - 1 \<and> w mod L = k"
proof (cases "s < k")
  case True
  with assms show ?thesis by (intro exI[of _ k]) simp
next
  case False
  with assms have "k < s" by simp
  with assms show ?thesis by (intro exI[of _ "k + L"]) simp
qed

lemma GetTwo_loop_two:
  assumes "len_map (circle c) = L" and "length (sortedHashes c) = L" and "s < L"
    and "occupants c ! s = a" and "k < L" and "occupants c ! k \<noteq> a"
  shows "\<exists>b. GetTwo_loop c a s (s + 1) [] = Some (Inr b) \<and> b \<noteq> a \<and> b \<in> set (occupants c)"
proof -
  from assms(4,6) have "k \<noteq> s" by auto
  from index_as_round[OF assms(3,5) this] obtain w0
    where w0: "s + 1 \<le> w0" "w0 \<le> s + L - 1" "w0 mod L = k" by blast
  define P where "P = (\<lambda>w. s + 1 \<le> w \<and> occupants c ! (w mod L) \<noteq> a)"
  define w where "w = (LEAST w. P w)"
  have P0: "P w0" using w0 assms(6) by (simp add: P_def)
  have Pw: "P w" unfolding w_def by (rule LeastI[of P, OF P0])
  have le: "w \<le> w0" unfolding w_def by (rule Least_le[of P, OF P0])
  have before: "\<forall>u. s + 1 \<le> u \<and> u < w \<longrightarrow> occupants c ! (u mod L) = a"
  proof (intro allI impI)
    fix u assume u: "s + 1 \<le> u \<and> u < w"
    then have "\<not> P u" unfolding w_def using not_less_Least by blast
    with u show "occupants c ! (u mod L) = a" by (simp add: P_def)
  qed
  from Pw have ws: "s + 1 \<le> w" and wd: "occupants c ! (w mod L) \<noteq> a" by (simp_all add: P_def)
  from le w0 have wb: "w \<le> s + L - 1" by simp
  have "GetTwo_loop c a s ((s + 1 - 1) mod L + 1) [] = Some (Inr (occupants c ! (w mod L)))"
    by (rule GetTwo_loop_find[OF assms(1,2,3) _ ws wb before wd]) simp
  moreover have "(s + 1 - 1) mod L + 1 = s + 1" using assms(3) by simp
  moreover have "occupants c ! (w mod L) \<in> set (occupants c)"
    using assms(2,3) by (simp add: occupants_def)
  ultimately show ?thesis using wd by auto
qed

lemma GetTwo_loop_all_same:
  assumes "len_map (circle c) = L" and "length (sortedHashes c) = L"
    and "1 \<le> s" and "s < L" and "\<forall>k<L. occupants c ! k = a"
    and "s + 1 \<le> v" and "v \<le> s + L" and "s + 1 < v \<longrightarrow> b = a"
  shows "GetTwo_loop c a s ((v - 1) mod L + 1) b = Some (Inr a)"
  using assms(6,7,8)
proof (induction "s + L - v" arbitrary: v b)
  case 0
  then have v: "v = s + L" by simp
  have e: "s + L - 1 = (s - 1) + L" using assms(3) by arith
  have "(s + L - 1) mod L = (s - 1) mod L" unfolding e by simp
  also have "\<dots> = s - 1" using assms(4) by simp
  finally have "(v - 1) mod L + 1 = s" using v assms(3) by simp
  moreover have "b = a" using "0.prems"(3) v assms(3,4) by simp
  ultimately show ?case by (subst GetTwo_loop.simps) simp
next
  case (Suc d)
  then have vb: "v \<le> s + L - 1" by simp
  have "v mod L < L" using assms(4) by simp
  with assms(5) have same: "occupants c ! (v mod L) = a" by simp
  have "GetTwo_loop c a s ((v + 1 - 1) mod L + 1) a = Some (Inr a)"
  proof (rule Suc.hyps(1))
    show "d = s + L - (v + 1)" using Suc.hyps(2) by simp
    show "s + 1 \<le> v + 1" using Suc.prems(1) by simp
    show "v + 1 \<le> s + L" using vb assms(4) by simp
    show "s + 1 < v + 1 \<longrightarrow> a = a" by simp
  qed
  with GetTwo_loop_round[OF assms(1,2,4) Suc.prems(1) vb, of a b] same
  show ?case by simp
qed

section \<open>Two distinct nodes\<close>

text \<open>
  C7 (amended).  On a non-empty ring, whenever \<open>GetTwo\<close> returns two nodes the first is
  the node \<open>Get\<close> returns, the primary.  When \<open>count\<close> is 1 it returns the primary alone.
  When \<open>count\<close> is not 1 and the circle holds an occupant other than the primary, it
  returns, and its second node is an occupant of the circle different from the primary.
\<close>

theorem GetTwo_primary_and_second:
  assumes "ring_ok c" and "len_map (circle c) \<noteq> 0"
  shows "\<exists>a. Get c name = Inr a \<and>
           (\<forall>a' b. GetTwo c name = Some (Inr (a', b)) \<longrightarrow> a' = a) \<and>
           (count c = 1 \<longrightarrow> GetTwo c name = Some (Inr (a, []))) \<and>
           (count c \<noteq> 1 \<and> (\<exists>x \<in> set (occupants c). x \<noteq> a) \<longrightarrow>
              (\<exists>b. GetTwo c name = Some (Inr (a, b)) \<and> b \<noteq> a \<and> b \<in> set (occupants c)))"
proof -
  define L where "L = length (sortedHashes c)"
  define s where "s = search c (hashKey c name)"
  define a where "a = circle_at c (sortedHashes c ! s)"
  have lm: "len_map (circle c) = L" using ring_ok_length[OF assms(1)] by (simp add: L_def)
  have ne: "sortedHashes c \<noteq> []" by (rule ring_ok_nonempty[OF assms])
  have sL: "s < L" unfolding s_def L_def by (rule search_in_range[OF ne])
  have g: "Get c name = Inr a"
    using Get_selected[OF assms] by (simp add: a_def s_def selected_def)
  have occ_s: "occupants c ! s = a" using sL by (simp add: a_def occupants_nth L_def)
  have nle: "\<not> L \<le> s" using sL by simp
  have first: "\<forall>a' b. GetTwo c name = Some (Inr (a', b)) \<longrightarrow> a' = a"
    using assms(2) nle
    by (auto simp: GetTwo_def Let_def s_def[symmetric] L_def[symmetric] a_def[symmetric]
             split: if_splits option.splits sum.splits)
  have one: "count c = 1 \<longrightarrow> GetTwo c name = Some (Inr (a, []))"
    using assms(2) nle by (simp add: GetTwo_def Let_def s_def[symmetric] L_def[symmetric] a_def)
  have two: "count c \<noteq> 1 \<and> (\<exists>x \<in> set (occupants c). x \<noteq> a) \<longrightarrow>
              (\<exists>b. GetTwo c name = Some (Inr (a, b)) \<and> b \<noteq> a \<and> b \<in> set (occupants c))"
  proof (intro impI, elim conjE bexE)
    fix x assume c1: "count c \<noteq> 1" and x: "x \<in> set (occupants c)" "x \<noteq> a"
    from x(1) obtain k where k: "k < L" "occupants c ! k = x"
      by (auto simp: in_set_conv_nth occupants_def L_def)
    with x(2) have "occupants c ! k \<noteq> a" by simp
    from GetTwo_loop_two[OF lm _ sL occ_s k(1) this] obtain b
      where b: "GetTwo_loop c a s (s + 1) [] = Some (Inr b)" "b \<noteq> a" "b \<in> set (occupants c)"
      by (auto simp: L_def)
    have "GetTwo c name = Some (Inr (a, b))"
      using assms(2) nle c1 b(1)
      by (simp add: GetTwo_def Let_def s_def[symmetric] L_def[symmetric] a_def[symmetric])
    with b show "\<exists>b. GetTwo c name = Some (Inr (a, b)) \<and> b \<noteq> a \<and> b \<in> set (occupants c)"
      by blast
  qed
  from g first one two show ?thesis by blast
qed

section \<open>Two names with one checksum\<close>

text \<open>
  \<open>"kadtati"\<close> and \<open>"hosdwbv"\<close> have the same CRC-32, and so have \<open>"0kadtati"\<close> and
  \<open>"0hosdwbv"\<close>, \<open>"1kadtati"\<close> and \<open>"1hosdwbv"\<close>, and so on: the twenty positions of
  the one are the twenty positions of the other.
\<close>

lemma eltKeys_kadtati:
  "map (eltKey ''kadtati'') (loop_indices 20) =
     [''0kadtati'', ''1kadtati'', ''2kadtati'', ''3kadtati'', ''4kadtati'', ''5kadtati'',
      ''6kadtati'', ''7kadtati'', ''8kadtati'', ''9kadtati'', ''10kadtati'', ''11kadtati'',
      ''12kadtati'', ''13kadtati'', ''14kadtati'', ''15kadtati'', ''16kadtati'',
      ''17kadtati'', ''18kadtati'', ''19kadtati'']"
  by (simp add: loop_indices_20 eltKey_def Itoa_small Itoa_teens)

lemma eltKeys_hosdwbv:
  "map (eltKey ''hosdwbv'') (loop_indices 20) =
     [''0hosdwbv'', ''1hosdwbv'', ''2hosdwbv'', ''3hosdwbv'', ''4hosdwbv'', ''5hosdwbv'',
      ''6hosdwbv'', ''7hosdwbv'', ''8hosdwbv'', ''9hosdwbv'', ''10hosdwbv'', ''11hosdwbv'',
      ''12hosdwbv'', ''13hosdwbv'', ''14hosdwbv'', ''15hosdwbv'', ''16hosdwbv'',
      ''17hosdwbv'', ''18hosdwbv'', ''19hosdwbv'']"
  by (simp add: loop_indices_20 eltKey_def Itoa_small Itoa_teens)

lemma crc_table_kadtati:
  "map ChecksumIEEE
     [''0kadtati'', ''1kadtati'', ''2kadtati'', ''3kadtati'', ''4kadtati'', ''5kadtati'',
      ''6kadtati'', ''7kadtati'', ''8kadtati'', ''9kadtati'', ''10kadtati'', ''11kadtati'',
      ''12kadtati'', ''13kadtati'', ''14kadtati'', ''15kadtati'', ''16kadtati'',
      ''17kadtati'', ''18kadtati'', ''19kadtati''] = clash_positions"
  unfolding clash_positions_def
  by (simp add: ChecksumIEEE_def crc32_update_unfold crc32_step_def)

lemma crc_table_hosdwbv:
  "map ChecksumIEEE
     [''0hosdwbv'', ''1hosdwbv'', ''2hosdwbv'', ''3hosdwbv'', ''4hosdwbv'', ''5hosdwbv'',
      ''6hosdwbv'', ''7hosdwbv'', ''8hosdwbv'', ''9hosdwbv'', ''10hosdwbv'', ''11hosdwbv'',
      ''12hosdwbv'', ''13hosdwbv'', ''14hosdwbv'', ''15hosdwbv'', ''16hosdwbv'',
      ''17hosdwbv'', ''18hosdwbv'', ''19hosdwbv''] = clash_positions"
  unfolding clash_positions_def
  by (simp add: ChecksumIEEE_def crc32_update_unfold crc32_step_def)

lemma crc_kadtati:
  "map (\<lambda>i. ChecksumIEEE (eltKey ''kadtati'' i)) (loop_indices 20) = clash_positions"
proof -
  have "map (\<lambda>i. ChecksumIEEE (eltKey ''kadtati'' i)) (loop_indices 20)
          = map ChecksumIEEE (map (eltKey ''kadtati'') (loop_indices 20))"
    by (simp only: map_map o_def)
  then show ?thesis unfolding eltKeys_kadtati crc_table_kadtati .
qed

lemma crc_hosdwbv:
  "map (\<lambda>i. ChecksumIEEE (eltKey ''hosdwbv'' i)) (loop_indices 20) = clash_positions"
proof -
  have "map (\<lambda>i. ChecksumIEEE (eltKey ''hosdwbv'' i)) (loop_indices 20)
          = map ChecksumIEEE (map (eltKey ''hosdwbv'') (loop_indices 20))"
    by (simp only: map_map o_def)
  then show ?thesis unfolding eltKeys_hosdwbv crc_table_hosdwbv .
qed

lemma sort_clash_positions:
  "sort (remdups (clash_positions @ clash_positions)) =
     [192835968, 338782891, 519332786, 551514654, 706378503, 1444179414, 1557226703,
      1660581219, 1748991098, 2109042248, 2424005713, 2596171080, 2761260260, 2924508669,
      2971627222, 3352588574, 3529401132, 3634063925, 3870325657, 3967120000]"
  unfolding clash_positions_def by simp

lemma crc_tom: "ChecksumIEEE ''tom'' = 2111795987"
  by (simp add: ChecksumIEEE_def crc32_update_unfold crc32_step_def)

lemma search_at:
  assumes "sorted (sortedHashes c)" and "i < length (sortedHashes c)"
    and "key < sortedHashes c ! i" and "0 < i \<longrightarrow> sortedHashes c ! (i - 1) \<le> key"
  shows "search c key = i"
proof -
  have ex: "\<exists>k<length (sortedHashes c). key < sortedHashes c ! k"
    using assms(2,3) by blast
  have "(LEAST k. k < length (sortedHashes c) \<and> key < sortedHashes c ! k) = i"
  proof (rule Least_equality)
    show "i < length (sortedHashes c) \<and> key < sortedHashes c ! i" using assms(2,3) by simp
  next
    fix y assume y: "y < length (sortedHashes c) \<and> key < sortedHashes c ! y"
    show "i \<le> y"
    proof (rule ccontr)
      assume "\<not> i \<le> y"
      then have yi: "y \<le> i - 1" and ip: "0 < i" by simp_all
      from assms(2) have "i - 1 < length (sortedHashes c)" by simp
      from sorted_nth_mono[OF assms(1) yi this] assms(4) ip
      have "sortedHashes c ! y \<le> key" by (meson order_trans)
      with y show False by (meson leD)
    qed
  qed
  with search_least[OF assms(1), of key] ex show ?thesis by simp
qed

lemma good_config: "good c \<Longrightarrow> config_ok c"
  by (simp add: good_def)

lemma good_ring_ok: "good c \<Longrightarrow> ring_ok c"
  by (simp add: good_def)

lemma Add_keeps:
  assumes "config_ok c" and "Add c elt = Inr c1"
  shows "UseFnv c1 = UseFnv c" and "NumberOfReplicas c1 = NumberOfReplicas c"
    and "count c1 = count c + 1" and "members c1 = fmupd elt True (members c)"
    and "circle c1 = foldl (\<lambda>m i. fmupd (hashKey c (eltKey elt i)) elt m)
                       (circle c) (loop_indices (NumberOfReplicas c))"
  using add_result[OF assms(1), of elt] assms(2) by (auto simp: Add_def)

text \<open>The ring with the two names of one checksum.\<close>

lemma Add_New_kadtati: "Add New ''kadtati'' = Inr (projr (Add New ''kadtati''))"
  using add_result[OF config_ok_New, of "''kadtati''"] by (simp add: Add_def)

lemma good_kadtati: "good (projr (Add New ''kadtati''))"
  using good_add[OF good_New, of "''kadtati''"] by (auto simp: Add_def)

lemma Add_ring_clash: "Add (projr (Add New ''kadtati'')) ''hosdwbv'' = Inr ring_clash"
  using good_add[OF good_kadtati, of "''hosdwbv''"] by (auto simp: Add_def ring_clash_def)

lemma good_ring_clash: "good ring_clash"
  using good_add[OF good_kadtati, of "''hosdwbv''"] by (auto simp: Add_def ring_clash_def)

lemma NumberOfReplicas_New: "NumberOfReplicas New = 20"
  by (simp add: New_def)

lemma circle_ring_clash:
  "circle ring_clash =
     foldl (\<lambda>m i. fmupd (ChecksumIEEE (eltKey ''hosdwbv'' i)) ''hosdwbv'' m)
       (foldl (\<lambda>m i. fmupd (ChecksumIEEE (eltKey ''kadtati'' i)) ''kadtati'' m)
          fmempty (loop_indices 20))
       (loop_indices 20)"
proof -
  let ?c1 = "projr (Add New ''kadtati'')"
  note k = Add_keeps[OF config_ok_New Add_New_kadtati]
  have hk: "hashKey ?c1 = ChecksumIEEE"
    using hashKey_cong[OF k(1)] hashKey_New by (intro ext) simp
  have c1: "circle ?c1 = foldl (\<lambda>m i. fmupd (ChecksumIEEE (eltKey ''kadtati'' i)) ''kadtati'' m)
          fmempty (loop_indices 20)"
    unfolding k(5) by (simp add: hashKey_New NumberOfReplicas_New) (simp add: New_def)
  from Add_keeps(5)[OF good_config[OF good_kadtati] Add_ring_clash]
  show ?thesis unfolding hk k(2) NumberOfReplicas_New c1 .
qed

lemma count_ring_clash: "count ring_clash = 2"
  using Add_keeps(3)[OF good_config[OF good_kadtati] Add_ring_clash]
        Add_keeps(3)[OF config_ok_New Add_New_kadtati]
  by (simp add: New_def)

lemma members_ring_clash:
  "members ring_clash = fmupd ''hosdwbv'' True (fmupd ''kadtati'' True fmempty)"
  using Add_keeps(4)[OF good_config[OF good_kadtati] Add_ring_clash]
        Add_keeps(4)[OF config_ok_New Add_New_kadtati]
  by (simp add: New_def)

lemma hashKey_ring_clash: "hashKey ring_clash key = ChecksumIEEE key"
proof -
  have "UseFnv ring_clash = UseFnv New"
    using Add_keeps(1)[OF good_config[OF good_kadtati] Add_ring_clash]
          Add_keeps(1)[OF config_ok_New Add_New_kadtati] by simp
  from hashKey_cong[OF this] hashKey_New show ?thesis by simp
qed

lemma sortedHashes_ring_clash:
  "sortedHashes ring_clash = sort (remdups (clash_positions @ clash_positions))"
proof -
  from good_ring_clash have "sortedHashes ring_clash = sorted_list_of_fset (fmdom (circle ring_clash))"
    by (simp add: good_def ring_ok_def)
  also have "\<dots> = sorted_list_of_fset (fset_of_list clash_positions |\<union>| fset_of_list clash_positions)"
    by (simp only: circle_ring_clash fmdom_foldl_fmupd crc_kadtati crc_hosdwbv
          fmdom_empty funion_fempty_right)
  also have "\<dots> = sort (remdups (clash_positions @ clash_positions))"
    by (simp only: fset_of_list_append[symmetric] sorted_list_of_fset_of_list)
  finally show ?thesis .
qed

lemma circle_at_ring_clash:
  "circle_at ring_clash p = (if p \<in> set clash_positions then ''hosdwbv'' else [])"
proof -
  have a: "(\<lambda>i. ChecksumIEEE (eltKey ''hosdwbv'' i)) ` set (loop_indices 20) = set clash_positions"
    using crc_hosdwbv by (metis set_map)
  have b: "(\<lambda>i. ChecksumIEEE (eltKey ''kadtati'' i)) ` set (loop_indices 20) = set clash_positions"
    using crc_kadtati by (metis set_map)
  show ?thesis
    unfolding circle_at_def circle_ring_clash lookup_foldl_fmupd a b by simp
qed

lemma occupants_ring_clash: "\<forall>k<20. occupants ring_clash ! k = ''hosdwbv''"
proof (intro allI impI)
  fix k :: nat assume k: "k < 20"
  have len: "length (sortedHashes ring_clash) = 20"
    unfolding sortedHashes_ring_clash sort_clash_positions by simp
  have "sortedHashes ring_clash ! k \<in> set (sortedHashes ring_clash)"
    using k len by simp
  then have "sortedHashes ring_clash ! k \<in> set clash_positions"
    unfolding sortedHashes_ring_clash by simp
  then show "occupants ring_clash ! k = ''hosdwbv''"
    using k len by (simp add: occupants_nth circle_at_ring_clash)
qed

lemma length_ring_clash: "length (sortedHashes ring_clash) = 20"
  unfolding sortedHashes_ring_clash sort_clash_positions by simp

lemma search_ring_clash_tom: "search ring_clash (hashKey ring_clash ''tom'') = 10"
proof (rule search_at)
  show "sorted (sortedHashes ring_clash)"
    using good_ring_clash by (simp add: good_def ring_ok_sorted_distinct)
  show "10 < length (sortedHashes ring_clash)" by (simp add: length_ring_clash)
  show "hashKey ring_clash ''tom'' < sortedHashes ring_clash ! 10"
    unfolding hashKey_ring_clash crc_tom sortedHashes_ring_clash sort_clash_positions by simp
  show "0 < (10::nat) \<longrightarrow> sortedHashes ring_clash ! (10 - 1) \<le> hashKey ring_clash ''tom''"
    unfolding hashKey_ring_clash crc_tom sortedHashes_ring_clash sort_clash_positions by simp
qed

text \<open>
  On the ring of the two names with one checksum, both names are members and only the one
  added last occupies the circle.
\<close>

lemma sorted_ring_clash: "sorted (sortedHashes ring_clash)"
  using good_ring_clash by (simp add: good_def ring_ok_sorted_distinct)

lemma len_map_ring_clash: "len_map (circle ring_clash) = 20"
  using ring_ok_length[OF good_ring_ok[OF good_ring_clash]] length_ring_clash by simp

lemma primary_ring_clash_tom:
  "circle_at ring_clash (sortedHashes ring_clash ! 10) = ''hosdwbv''"
  using occupants_ring_clash occupants_nth[of 10 ring_clash] length_ring_clash by simp

theorem GetTwo_clash_counterexample:
  "fmlookup (members ring_clash) ''kadtati'' = Some True
   \<and> fmlookup (members ring_clash) ''hosdwbv'' = Some True
   \<and> count ring_clash = 2
   \<and> GetTwo ring_clash ''tom'' = Some (Inr (''hosdwbv'', ''hosdwbv''))"
proof -
  have loop: "GetTwo_loop ring_clash ''hosdwbv'' 10 ((11 - 1) mod 20 + 1) [] = Some (Inr ''hosdwbv'')"
    by (rule GetTwo_loop_all_same[OF len_map_ring_clash length_ring_clash _ _ occupants_ring_clash])
       simp_all
  then have "GetTwo_loop ring_clash ''hosdwbv'' 10 (10 + 1) [] = Some (Inr ''hosdwbv'')" by simp
  then have "GetTwo ring_clash ''tom'' = Some (Inr (''hosdwbv'', ''hosdwbv''))"
    by (simp add: GetTwo_def Let_def len_map_ring_clash search_ring_clash_tom length_ring_clash
          primary_ring_clash_tom count_ring_clash)
  then show ?thesis by (simp add: members_ring_clash count_ring_clash)
qed

text \<open>The ring after \<open>Add("abcdefg")\<close> and \<open>Add("hijklmn")\<close>, computed.\<close>

lemma Add_ring_two: "Add ring_one ''hijklmn'' = Inr ring_two"
  using good_add[OF good_ring_one, of "''hijklmn''"] by (auto simp: Add_def ring_two_def)

lemma good_ring_two: "good ring_two"
  using good_add[OF good_ring_one, of "''hijklmn''"] by (auto simp: Add_def ring_two_def)

lemma eltKeys_hijklmn:
  "map (eltKey ''hijklmn'') (loop_indices 20) =
     [''0hijklmn'', ''1hijklmn'', ''2hijklmn'', ''3hijklmn'', ''4hijklmn'', ''5hijklmn'',
      ''6hijklmn'', ''7hijklmn'', ''8hijklmn'', ''9hijklmn'', ''10hijklmn'', ''11hijklmn'',
      ''12hijklmn'', ''13hijklmn'', ''14hijklmn'', ''15hijklmn'', ''16hijklmn'',
      ''17hijklmn'', ''18hijklmn'', ''19hijklmn'']"
  by (simp add: loop_indices_20 eltKey_def Itoa_small Itoa_teens)

lemma crc_table_hijklmn:
  "map ChecksumIEEE
     [''0hijklmn'', ''1hijklmn'', ''2hijklmn'', ''3hijklmn'', ''4hijklmn'', ''5hijklmn'',
      ''6hijklmn'', ''7hijklmn'', ''8hijklmn'', ''9hijklmn'', ''10hijklmn'', ''11hijklmn'',
      ''12hijklmn'', ''13hijklmn'', ''14hijklmn'', ''15hijklmn'', ''16hijklmn'',
      ''17hijklmn'', ''18hijklmn'', ''19hijklmn''] =
     [1937548315, 3218515077, 827958118, 4260602872, 4147555041, 1000123007, 3037965724,
      2042211586, 2694430638, 1815330608, 3374168909, 95927251, 2335751216, 1200798894,
      1297593783, 2180887849, 259175114, 3285758548, 452501752, 3595739238]"
  by (simp add: ChecksumIEEE_def crc32_update_unfold crc32_step_def)

lemma crc_hijklmn:
  "map (\<lambda>i. ChecksumIEEE (eltKey ''hijklmn'' i)) (loop_indices 20) =
     [1937548315, 3218515077, 827958118, 4260602872, 4147555041, 1000123007, 3037965724,
      2042211586, 2694430638, 1815330608, 3374168909, 95927251, 2335751216, 1200798894,
      1297593783, 2180887849, 259175114, 3285758548, 452501752, 3595739238]"
proof -
  have "map (\<lambda>i. ChecksumIEEE (eltKey ''hijklmn'' i)) (loop_indices 20)
          = map ChecksumIEEE (map (eltKey ''hijklmn'') (loop_indices 20))"
    by (simp only: map_map o_def)
  then show ?thesis unfolding eltKeys_hijklmn crc_table_hijklmn .
qed

lemma NumberOfReplicas_ring_one: "NumberOfReplicas ring_one = 20"
  using Add_keeps(2)[OF config_ok_New Add_New_ring_one] by (simp add: New_def)

lemma circle_ring_two:
  "circle ring_two =
     foldl (\<lambda>m i. fmupd (ChecksumIEEE (eltKey ''hijklmn'' i)) ''hijklmn'' m)
       (foldl (\<lambda>m i. fmupd (ChecksumIEEE (eltKey ''abcdefg'' i)) ''abcdefg'' m)
          fmempty (loop_indices 20))
       (loop_indices 20)"
proof -
  have hk: "hashKey ring_one = ChecksumIEEE" by (intro ext) (rule hashKey_ring_one)
  from Add_keeps(5)[OF good_config[OF good_ring_one] Add_ring_two]
  show ?thesis unfolding hk NumberOfReplicas_ring_one circle_ring_one .
qed

lemma count_ring_two: "count ring_two = 2"
  using Add_keeps(3)[OF good_config[OF good_ring_one] Add_ring_two] count_ring_one by simp

lemma hashKey_ring_two: "hashKey ring_two key = ChecksumIEEE key"
proof -
  have "UseFnv ring_two = UseFnv ring_one"
    using Add_keeps(1)[OF good_config[OF good_ring_one] Add_ring_two] .
  from hashKey_cong[OF this] hashKey_ring_one show ?thesis by simp
qed

lemma sortedHashes_ring_two:
  "sortedHashes ring_two =
     [71907240, 95927251, 244072113, 259175114, 452501752, 623721775, 816262941, 827958118,
      979510788, 1000123007, 1181495509, 1200798894, 1286158796, 1297593783, 1407591143,
      1815330608, 1921132640, 1937548315, 2017927545, 2042211586, 2147694930, 2180887849,
      2328244299, 2335751216, 2672566905, 2694430638, 3035439591, 3037965724, 3190302974,
      3218515077, 3257286191, 3285758548, 3370334006, 3374168909, 3595739238, 3917954481,
      4140312218, 4147555041, 4228722563, 4260602872]"
proof -
  from good_ring_two have "sortedHashes ring_two = sorted_list_of_fset (fmdom (circle ring_two))"
    by (simp add: good_def ring_ok_def)
  also have "\<dots> = sorted_list_of_fset
       (fset_of_list [1937548315, 3218515077, 827958118, 4260602872, 4147555041, 1000123007, 3037965724,
      2042211586, 2694430638, 1815330608, 3374168909, 95927251, 2335751216, 1200798894,
      1297593783, 2180887849, 259175114, 3285758548, 452501752, 3595739238]
        |\<union>| fset_of_list [1286158796, 2147694930, 244072113, 3257286191, 3370334006, 71907240, 2328244299,
      1181495509, 2672566905, 1407591143, 4140312218, 979510788, 3035439591, 2017927545,
      1921132640, 3190302974, 816262941, 4228722563, 623721775, 3917954481])"
    by (simp only: circle_ring_two fmdom_foldl_fmupd crc_abcdefg crc_hijklmn
          fmdom_empty funion_fempty_right)
  also have "\<dots> = sort (remdups
       ([1937548315, 3218515077, 827958118, 4260602872, 4147555041, 1000123007, 3037965724,
      2042211586, 2694430638, 1815330608, 3374168909, 95927251, 2335751216, 1200798894,
      1297593783, 2180887849, 259175114, 3285758548, 452501752, 3595739238]
        @ [1286158796, 2147694930, 244072113, 3257286191, 3370334006, 71907240, 2328244299,
      1181495509, 2672566905, 1407591143, 4140312218, 979510788, 3035439591, 2017927545,
      1921132640, 3190302974, 816262941, 4228722563, 623721775, 3917954481]))"
    by (simp only: fset_of_list_append[symmetric] sorted_list_of_fset_of_list)
  also have "\<dots> =
     [71907240, 95927251, 244072113, 259175114, 452501752, 623721775, 816262941, 827958118,
      979510788, 1000123007, 1181495509, 1200798894, 1286158796, 1297593783, 1407591143,
      1815330608, 1921132640, 1937548315, 2017927545, 2042211586, 2147694930, 2180887849,
      2328244299, 2335751216, 2672566905, 2694430638, 3035439591, 3037965724, 3190302974,
      3218515077, 3257286191, 3285758548, 3370334006, 3374168909, 3595739238, 3917954481,
      4140312218, 4147555041, 4228722563, 4260602872]"
    by simp
  finally show ?thesis .
qed

lemma circle_at_ring_two:
  "circle_at ring_two p =
     (if p \<in> set [1937548315, 3218515077, 827958118, 4260602872, 4147555041, 1000123007, 3037965724,
      2042211586, 2694430638, 1815330608, 3374168909, 95927251, 2335751216, 1200798894,
      1297593783, 2180887849, 259175114, 3285758548, 452501752, 3595739238]
      then ''hijklmn''
      else if p \<in> set [1286158796, 2147694930, 244072113, 3257286191, 3370334006, 71907240, 2328244299,
      1181495509, 2672566905, 1407591143, 4140312218, 979510788, 3035439591, 2017927545,
      1921132640, 3190302974, 816262941, 4228722563, 623721775, 3917954481]
      then ''abcdefg'' else [])"
proof -
  have a: "(\<lambda>i. ChecksumIEEE (eltKey ''hijklmn'' i)) ` set (loop_indices 20) =
     set [1937548315, 3218515077, 827958118, 4260602872, 4147555041, 1000123007, 3037965724,
      2042211586, 2694430638, 1815330608, 3374168909, 95927251, 2335751216, 1200798894,
      1297593783, 2180887849, 259175114, 3285758548, 452501752, 3595739238]"
    using crc_hijklmn by (metis set_map)
  have b: "(\<lambda>i. ChecksumIEEE (eltKey ''abcdefg'' i)) ` set (loop_indices 20) =
     set [1286158796, 2147694930, 244072113, 3257286191, 3370334006, 71907240, 2328244299,
      1181495509, 2672566905, 1407591143, 4140312218, 979510788, 3035439591, 2017927545,
      1921132640, 3190302974, 816262941, 4228722563, 623721775, 3917954481]"
    using crc_abcdefg by (metis set_map)
  show ?thesis
    unfolding circle_at_def circle_ring_two lookup_foldl_fmupd a b by simp
qed

lemma crc_ggg: "ChecksumIEEE ''ggg'' = 1270025516"
  by (simp add: ChecksumIEEE_def crc32_update_unfold crc32_step_def)

lemma length_ring_two: "length (sortedHashes ring_two) = 40"
  unfolding sortedHashes_ring_two by simp

lemma len_map_ring_two: "len_map (circle ring_two) = 40"
  using ring_ok_length[OF good_ring_ok[OF good_ring_two]] length_ring_two by simp

lemma search_ring_two_ggg: "search ring_two (hashKey ring_two ''ggg'') = 12"
proof (rule search_at)
  show "sorted (sortedHashes ring_two)"
    using good_ring_two by (simp add: good_def ring_ok_sorted_distinct)
  show "12 < length (sortedHashes ring_two)" by (simp add: length_ring_two)
  show "hashKey ring_two ''ggg'' < sortedHashes ring_two ! 12"
    unfolding hashKey_ring_two crc_ggg sortedHashes_ring_two by simp
  show "0 < (12::nat) \<longrightarrow> sortedHashes ring_two ! (12 - 1) \<le> hashKey ring_two ''ggg''"
    unfolding hashKey_ring_two crc_ggg sortedHashes_ring_two by simp
qed

lemma nth_12_ring_two: "sortedHashes ring_two ! 12 = 1286158796"
  unfolding sortedHashes_ring_two by simp

lemma nth_13_ring_two: "sortedHashes ring_two ! 13 = 1297593783"
  unfolding sortedHashes_ring_two by simp

lemma Get_ring_two_ggg: "Get ring_two ''ggg'' = Inr ''abcdefg''"
  using Get_selected[OF good_ring_ok[OF good_ring_two], of "''ggg''"]
  by (simp add: len_map_ring_two selected_def search_ring_two_ggg nth_12_ring_two
        circle_at_ring_two)

lemma hijklmn_on_ring_two: "''hijklmn'' \<in> set (occupants ring_two)"
proof -
  have "occupants ring_two ! 13 = ''hijklmn''"
    by (simp add: occupants_nth length_ring_two nth_13_ring_two circle_at_ring_two)
  moreover have "13 < length (occupants ring_two)" by (simp add: occupants_def length_ring_two)
  ultimately show ?thesis by (metis nth_mem)
qed

theorem GetTwo_primary_and_second_witness:
  "ring_ok ring_two \<and> len_map (circle ring_two) \<noteq> 0
   \<and> Get ring_two ''ggg'' = Inr ''abcdefg''
   \<and> count ring_two \<noteq> 1 \<and> ''hijklmn'' \<in> set (occupants ring_two)
   \<and> (\<exists>b. GetTwo ring_two ''ggg'' = Some (Inr (''abcdefg'', b)) \<and> b \<noteq> ''abcdefg''
          \<and> b \<in> set (occupants ring_two))
   \<and> ring_ok ring_one \<and> len_map (circle ring_one) \<noteq> 0 \<and> count ring_one = 1
   \<and> (\<exists>a. Get ring_one ''ggg'' = Inr a \<and> GetTwo ring_one ''ggg'' = Some (Inr (a, [])))"
proof -
  have a2: "ring_ok ring_two" by (rule good_ring_ok[OF good_ring_two])
  have b2: "len_map (circle ring_two) \<noteq> 0" by (simp add: len_map_ring_two)
  have c2: "count ring_two \<noteq> 1" by (simp add: count_ring_two)
  have d2: "\<exists>x \<in> set (occupants ring_two). x \<noteq> ''abcdefg''"
    using hijklmn_on_ring_two by (intro bexI[of _ "''hijklmn''"]) simp_all
  have a1: "ring_ok ring_one" by (rule good_ring_ok[OF good_ring_one])
  have b1: "len_map (circle ring_one) \<noteq> 0" by (simp add: len_map_ring_one)
  from GetTwo_primary_and_second[OF a2 b2, of "''ggg''"] Get_ring_two_ggg c2 d2
  have two: "\<exists>b. GetTwo ring_two ''ggg'' = Some (Inr (''abcdefg'', b)) \<and> b \<noteq> ''abcdefg''
          \<and> b \<in> set (occupants ring_two)"
    by auto
  from GetTwo_primary_and_second[OF a1 b1, of "''ggg''"] count_ring_one
  have one: "\<exists>a. Get ring_one ''ggg'' = Inr a \<and> GetTwo ring_one ''ggg'' = Some (Inr (a, []))"
    by auto
  from a2 b2 Get_ring_two_ggg c2 hijklmn_on_ring_two two a1 b1 count_ring_one one
  show ?thesis by blast
qed

section \<open>Removing a node and the keys of the others\<close>

lemma fmdom_foldl_fmdrop:
  "fmdom (foldl (\<lambda>m i. fmdrop (f i) m) m0 xs) = fmdom m0 |-| fset_of_list (map f xs)"
  by (induction xs arbitrary: m0) auto

lemma sorted_list_of_fset_ffilter:
  "sorted_list_of_fset (ffilter Q A) = filter Q (sorted_list_of_fset A)"
proof (rule sorted_distinct_set_unique)
  show "sorted (sorted_list_of_fset (ffilter Q A))" by (simp add: sorted_list_of_fset.rep_eq)
  show "distinct (sorted_list_of_fset (ffilter Q A))" by (simp add: sorted_list_of_fset.rep_eq)
  show "sorted (filter Q (sorted_list_of_fset A))"
    by (simp add: sorted_list_of_fset.rep_eq sorted_wrt_filter)
  show "distinct (filter Q (sorted_list_of_fset A))" by (simp add: sorted_list_of_fset.rep_eq)
  show "set (sorted_list_of_fset (ffilter Q A)) = set (filter Q (sorted_list_of_fset A))"
    by auto
qed

lemma fminus_as_ffilter: "A |-| fset_of_list xs = ffilter (\<lambda>p. p \<notin> set xs) A"
  by (auto simp: fset_of_list_elem)

lemma pick_in_set: "xs \<noteq> [] \<Longrightarrow> pick xs key \<in> set xs"
proof (cases "filter (\<lambda>p. key < p) xs")
  case Nil
  assume "xs \<noteq> []"
  with Nil show ?thesis by (simp add: pick_def)
next
  case (Cons q qs)
  have "q \<in> set (q # qs)" by simp
  then have "q \<in> set (filter (\<lambda>p. key < p) xs)" unfolding Cons .
  then have "q \<in> set xs" by simp
  moreover have "pick xs key = q" using Cons by (simp add: pick_def)
  ultimately show ?thesis by simp
qed

lemma hd_filter_keeps:
  assumes "xs \<noteq> []" and "Q (hd xs)"
  shows "hd (filter Q xs) = hd xs"
  using assms by (cases xs) simp_all

lemma pick_filter:
  assumes "xs \<noteq> []" and "Q (pick xs key)"
  shows "pick (filter Q xs) key = pick xs key"
proof (cases "filter (\<lambda>p. key < p) xs")
  case Nil
  then have p: "pick xs key = hd xs" by (simp add: pick_def)
  have "filter (\<lambda>p. key < p) (filter Q xs) = filter Q (filter (\<lambda>p. key < p) xs)"
    by (simp add: conj_commute)
  with Nil have "filter (\<lambda>p. key < p) (filter Q xs) = []" by simp
  then have "pick (filter Q xs) key = hd (filter Q xs)" by (simp add: pick_def)
  with p hd_filter_keeps[OF assms(1), of Q] assms(2) show ?thesis by simp
next
  case (Cons q qs)
  then have p: "pick xs key = q" by (simp add: pick_def)
  have "filter (\<lambda>p. key < p) (filter Q xs) = filter Q (filter (\<lambda>p. key < p) xs)"
    by (simp add: conj_commute)
  with Cons have "filter (\<lambda>p. key < p) (filter Q xs) = filter Q (q # qs)" by simp
  with p assms(2) have "filter (\<lambda>p. key < p) (filter Q xs) = q # filter Q qs" by simp
  with p show ?thesis by (simp add: pick_def)
qed

lemma selected_pick:
  assumes "ring_ok c" and "len_map (circle c) \<noteq> 0"
  shows "selected c key = pick (sortedHashes c) key"
  using selected_filter[OF _ ring_ok_nonempty[OF assms], of key] assms(1)
  by (simp add: pick_def ring_ok_sorted_distinct)

text \<open>
  C9 (amended).  Let no node other than \<open>C\<close> occupy one of the positions that
  \<open>Remove(C)\<close> deletes.  Then for every key, if \<open>Get(key)\<close> returns a node other than \<open>C\<close>
  before \<open>Remove(C)\<close>, it returns the same node after it.
\<close>

theorem Remove_keeps_other_keys:
  assumes "config_ok c" and "ring_ok c"
    and "\<forall>p \<in> set (positions_of c elt).
           fmlookup (circle c) p = None \<or> fmlookup (circle c) p = Some elt"
    and "Get c key = Inr x" and "x \<noteq> elt"
  shows "\<exists>c'. Remove c elt = Inr c' \<and> Get c' key = Inr x"
proof -
  define P where "P = set (positions_of c elt)"
  define Q where "Q = (\<lambda>p. p \<notin> P)"
  define c' where "c' = c\<lparr> circle := foldl (\<lambda>m i. fmdrop (hashKey c (eltKey elt i)) m)
                                   (circle c) (loop_indices (NumberOfReplicas c)),
                         members := fmdrop elt (members c),
                         sortedHashes := sorted_list_of_fset (fmdom
                            (foldl (\<lambda>m i. fmdrop (hashKey c (eltKey elt i)) m)
                                   (circle c) (loop_indices (NumberOfReplicas c)))),
                         count := count c - 1 \<rparr>"
  have rem: "Remove c elt = Inr c'"
    unfolding c'_def Remove_def by (rule remove_result[OF assms(1)])
  have ok': "ring_ok c'" by (simp add: c'_def ring_ok_def)
  have hk: "hashKey c' = hashKey c" by (rule hashKey_cong) (simp add: c'_def)
  have look': "\<And>p. fmlookup (circle c') p = (if p \<in> P then None else fmlookup (circle c) p)"
    by (simp add: c'_def lookup_foldl_fmdrop P_def set_positions_of)
  have "fmdom (circle c') = fmdom (circle c) |-| fset_of_list (positions_of c elt)"
    by (simp add: c'_def fmdom_foldl_fmdrop positions_of_def)
  also have "\<dots> = ffilter Q (fmdom (circle c))"
    unfolding Q_def P_def by (rule fminus_as_ffilter)
  finally have dom': "fmdom (circle c') = ffilter Q (fmdom (circle c))" .
  have sh: "sortedHashes c = sorted_list_of_fset (fmdom (circle c))"
    using assms(2) by (simp add: ring_ok_def)
  have sh': "sortedHashes c' = filter Q (sortedHashes c)"
    using ok' unfolding ring_ok_def dom' sorted_list_of_fset_ffilter sh .
  have ne: "len_map (circle c) \<noteq> 0"
    using assms(4) by (auto simp: Get_def split: if_splits)
  let ?h = "hashKey c key"
  let ?p = "selected c ?h"
  have x: "x = circle_at c ?p" using Get_selected[OF assms(2) ne, of key] assms(4) by simp
  have pk: "?p = pick (sortedHashes c) ?h" by (rule selected_pick[OF assms(2) ne])
  have nonempty: "sortedHashes c \<noteq> []" by (rule ring_ok_nonempty[OF assms(2) ne])
  have pin: "?p \<in> set (sortedHashes c)" unfolding pk by (rule pick_in_set[OF nonempty])
  then have pdom: "?p |\<in>| fmdom (circle c)" unfolding sh by simp
  then obtain y where y: "fmlookup (circle c) ?p = Some y" by (auto simp: fmlookup_dom_iff)
  with x have xy: "x = y" by (simp add: circle_at_def)
  have Qp: "Q ?p"
  proof (rule ccontr)
    assume "\<not> Q ?p"
    then have "?p \<in> set (positions_of c elt)" by (simp add: Q_def P_def)
    with assms(3) y have "y = elt" by auto
    with xy assms(5) show False by simp
  qed
  have pdom': "?p |\<in>| fmdom (circle c')" unfolding dom' using pdom Qp by simp
  then have ne': "len_map (circle c') \<noteq> 0"
    by (auto simp: len_map_def fcard_fempty)
  have "selected c' ?h = pick (sortedHashes c') ?h" by (rule selected_pick[OF ok' ne'])
  also have "\<dots> = pick (sortedHashes c) ?h"
    unfolding sh' using pick_filter[OF nonempty, of Q ?h] Qp pk by simp
  finally have sel': "selected c' ?h = ?p" using pk by simp
  have "circle_at c' ?p = circle_at c ?p"
    using Qp by (simp add: circle_at_def look' Q_def)
  with Get_selected[OF ok' ne', of key] sel' x have "Get c' key = Inr x"
    by (simp add: hk)
  with rem show ?thesis by blast
qed

lemma NumberOfReplicas_ring_two: "NumberOfReplicas ring_two = 20"
  using Add_keeps(2)[OF good_config[OF good_ring_one] Add_ring_two] NumberOfReplicas_ring_one
  by simp

lemma NumberOfReplicas_ring_clash: "NumberOfReplicas ring_clash = 20"
  using Add_keeps(2)[OF good_config[OF good_kadtati] Add_ring_clash]
        Add_keeps(2)[OF config_ok_New Add_New_kadtati] NumberOfReplicas_New
  by simp

lemma hijklmn_positions_own:
  "list_all (\<lambda>p. fmlookup (circle ring_two) p = Some ''hijklmn'')
     (positions_of ring_two ''hijklmn'')"
proof -
  have hk: "hashKey ring_two = ChecksumIEEE" by (intro ext) (rule hashKey_ring_two)
  show ?thesis
    unfolding list_all_iff positions_of_def hk NumberOfReplicas_ring_two circle_ring_two
    by (simp add: lookup_foldl_fmupd)
qed

theorem Remove_keeps_other_keys_witness:
  "config_ok ring_two \<and> ring_ok ring_two
   \<and> list_all (\<lambda>p. fmlookup (circle ring_two) p = Some ''hijklmn'')
        (positions_of ring_two ''hijklmn'')
   \<and> Get ring_two ''ggg'' = Inr ''abcdefg'' \<and> ''abcdefg'' \<noteq> ''hijklmn''
   \<and> (\<exists>c'. Remove ring_two ''hijklmn'' = Inr c' \<and> Get c' ''ggg'' = Inr ''abcdefg'')"
proof -
  have a: "config_ok ring_two" by (rule good_config[OF good_ring_two])
  have b: "ring_ok ring_two" by (rule good_ring_ok[OF good_ring_two])
  have c: "\<forall>p \<in> set (positions_of ring_two ''hijklmn'').
             fmlookup (circle ring_two) p = None \<or> fmlookup (circle ring_two) p = Some ''hijklmn''"
    using hijklmn_positions_own by (simp add: list_all_iff)
  have d: "''abcdefg'' \<noteq> ''hijklmn''" by simp
  from Remove_keeps_other_keys[OF a b c Get_ring_two_ggg d] a b hijklmn_positions_own
       Get_ring_two_ggg d
  show ?thesis by blast
qed

text \<open>
  On the ring of the two names with one checksum, \<open>"tom"\<close> is served by \<open>"hosdwbv"\<close>;
  removing the other member, \<open>"kadtati"\<close>, deletes every position, and \<open>"tom"\<close> is served
  by nobody.
\<close>

lemma Get_ring_clash_tom: "Get ring_clash ''tom'' = Inr ''hosdwbv''"
  using Get_selected[OF good_ring_ok[OF good_ring_clash], of "''tom''"]
  by (simp add: len_map_ring_clash selected_def search_ring_clash_tom primary_ring_clash_tom)

lemma fmdom_circle_ring_clash: "fmdom (circle ring_clash) = fset_of_list clash_positions"
  by (simp only: circle_ring_clash fmdom_foldl_fmupd crc_kadtati crc_hosdwbv
        fmdom_empty funion_fempty_right sup_idem)

lemma Remove_ring_clash:
  "Remove ring_clash ''kadtati'' = Inr (projr (Remove ring_clash ''kadtati''))
   \<and> len_map (circle (projr (Remove ring_clash ''kadtati''))) = 0"
proof -
  have hk: "hashKey ring_clash = ChecksumIEEE" by (intro ext) (rule hashKey_ring_clash)
  define m where "m = foldl (\<lambda>m i. fmdrop (ChecksumIEEE (eltKey ''kadtati'' i)) m)
                        (circle ring_clash) (loop_indices 20)"
  have "fmdom m = fmdom (circle ring_clash)
                   |-| fset_of_list (map (\<lambda>i. ChecksumIEEE (eltKey ''kadtati'' i)) (loop_indices 20))"
    unfolding m_def by (rule fmdom_foldl_fmdrop)
  also have "\<dots> = fset_of_list clash_positions |-| fset_of_list clash_positions"
    by (simp only: fmdom_circle_ring_clash crc_kadtati)
  finally have dm: "fmdom m = {||}" by simp
  from remove_result[OF good_config[OF good_ring_clash], of "''kadtati''"]
  have r: "Remove ring_clash ''kadtati'' =
         Inr (ring_clash\<lparr> circle := m, members := fmdrop ''kadtati'' (members ring_clash),
                          sortedHashes := sorted_list_of_fset (fmdom m),
                          count := count ring_clash - 1 \<rparr>)"
    unfolding Remove_def hk NumberOfReplicas_ring_clash m_def .
  show ?thesis unfolding r by (simp add: len_map_def dm)
qed

theorem Remove_clash_counterexample:
  "fmlookup (members ring_clash) ''kadtati'' = Some True
   \<and> fmlookup (members ring_clash) ''hosdwbv'' = Some True
   \<and> Get ring_clash ''tom'' = Inr ''hosdwbv''
   \<and> Remove ring_clash ''kadtati'' = Inr (projr (Remove ring_clash ''kadtati''))
   \<and> Get (projr (Remove ring_clash ''kadtati'')) ''tom'' = Inl ErrEmptyCircle"
  using Remove_ring_clash Get_ring_clash_tom
  by (simp add: members_ring_clash Get_def)

section \<open>N distinct nodes\<close>

lemma GetN_loop_round:
  assumes "length (sortedHashes c) = L" and "s < L" and "s + 1 \<le> v"
    and "v \<le> s + L - 1 \<or> v = s + 1"
  shows "GetN_loop c n s ((v - 1) mod L + 1) res =
           (if int (length (if occupants c ! (v mod L) \<notin> set res
                            then res @ [occupants c ! (v mod L)] else res)) = n
            then Some (Inr (if occupants c ! (v mod L) \<notin> set res
                            then res @ [occupants c ! (v mod L)] else res))
            else GetN_loop c n s ((v + 1 - 1) mod L + 1)
                   (if occupants c ! (v mod L) \<notin> set res
                    then res @ [occupants c ! (v mod L)] else res))"
proof -
  from assms have L: "0 < L" and v1: "1 \<le> v" by simp_all
  have ns: "(v - 1) mod L + 1 \<noteq> s"
  proof (cases "v = s + 1")
    case True
    with assms(2) show ?thesis by simp
  next
    case False
    with assms(4) have "v \<le> s + L - 1" by simp
    from entry_not_start[OF assms(2,3) this] show ?thesis .
  qed
  have w: "(if (v - 1) mod L + 1 \<ge> L then 0 else (v - 1) mod L + 1) = v mod L"
    by (rule wrap_index[OF L v1])
  have lt: "v mod L < L" using L by simp
  have occ: "circle_at c (sortedHashes c ! (v mod L)) = occupants c ! (v mod L)"
    using lt assms(1) by (simp add: occupants_nth)
  show ?thesis
    apply (subst GetN_loop.simps)
    apply (simp only: assms(1) ns if_False Let_def w sliceContainsMember_def)
    using lt occ by simp
qed

lemma round_indices_cover:
  fixes L s :: nat
  assumes "length xs = L" and "s < L"
  shows "(\<lambda>u. xs ! (u mod L)) ` {s..<s + L} = set xs"
proof
  show "(\<lambda>u. xs ! (u mod L)) ` {s..<s + L} \<subseteq> set xs"
  proof
    fix x assume "x \<in> (\<lambda>u. xs ! (u mod L)) ` {s..<s + L}"
    then obtain u where "x = xs ! (u mod L)" by auto
    moreover have "u mod L < length xs" using assms by simp
    ultimately show "x \<in> set xs" by simp
  qed
next
  show "set xs \<subseteq> (\<lambda>u. xs ! (u mod L)) ` {s..<s + L}"
  proof
    fix x assume "x \<in> set xs"
    then obtain k where k: "k < L" "xs ! k = x" using assms(1) by (auto simp: in_set_conv_nth)
    define u where "u = (if s \<le> k then k else k + L)"
    have "u \<in> {s..<s + L}" using k(1) assms(2) by (simp add: u_def)
    moreover have "u mod L = k" using k(1) by (simp add: u_def)
    ultimately show "x \<in> (\<lambda>u. xs ! (u mod L)) ` {s..<s + L}" using k(2) by force
  qed
qed

lemma GetN_loop_collect:
  assumes "length (sortedHashes c) = L" and "s < L"
    and "n \<le> int (card (set (occupants c)))"
    and "s + 1 \<le> v" and "v \<le> s + L"
    and "distinct res" and "res \<noteq> []"
    and "set res = (\<lambda>u. occupants c ! (u mod L)) ` {s..<v}"
    and "int (length res) < n"
  shows "\<exists>res'. GetN_loop c n s ((v - 1) mod L + 1) res = Some (Inr res')
           \<and> int (length res') = n \<and> distinct res' \<and> set res' \<subseteq> set (occupants c)
           \<and> hd res' = hd res"
  using assms(4-9)
proof (induction "s + L - v" arbitrary: v res)
  case 0
  then have v: "v = s + L" by simp
  have lo: "length (occupants c) = L" using assms(1) by (simp add: occupants_def)
  from "0.prems"(5) round_indices_cover[OF lo assms(2)] v
  have "set res = set (occupants c)" by simp
  with "0.prems"(3) have "length res = card (set (occupants c))"
    by (metis distinct_card)
  with "0.prems"(6) assms(3) show ?case by simp
next
  case (Suc d)
  then have vb: "v \<le> s + L - 1" by simp
  define elem where "elem = occupants c ! (v mod L)"
  define res1 where "res1 = (if elem \<notin> set res then res @ [elem] else res)"
  have lo: "length (occupants c) = L" using assms(1) by (simp add: occupants_def)
  have "v mod L < L" using assms(2) by simp
  then have el: "elem \<in> set (occupants c)" using lo by (simp add: elem_def)
  have d1: "distinct res1" using Suc.prems(3) by (simp add: res1_def)
  have n1: "res1 \<noteq> []" using Suc.prems(4) by (simp add: res1_def)
  have h1: "hd res1 = hd res" using Suc.prems(4) by (simp add: res1_def)
  have "{s..<v + 1} = insert v {s..<v}" using Suc.prems(1) by auto
  then have s1: "set res1 = (\<lambda>u. occupants c ! (u mod L)) ` {s..<v + 1}"
    using Suc.prems(5) by (auto simp: res1_def elem_def)
  have sub: "set res1 \<subseteq> set (occupants c)"
  proof
    fix x assume "x \<in> set res1"
    with s1 obtain u where "x = occupants c ! (u mod L)" by auto
    moreover have "u mod L < L" using assms(2) by simp
    ultimately show "x \<in> set (occupants c)" using lo by simp
  qed
  have l1: "int (length res1) \<le> n" using Suc.prems(6) by (simp add: res1_def)
  have rnd: "GetN_loop c n s ((v - 1) mod L + 1) res =
           (if int (length res1) = n then Some (Inr res1)
            else GetN_loop c n s ((v + 1 - 1) mod L + 1) res1)"
    using GetN_loop_round[OF assms(1,2) Suc.prems(1), of n res] vb
    unfolding res1_def elem_def by simp
  show ?case
  proof (cases "int (length res1) = n")
    case True
    with rnd d1 sub h1 show ?thesis by auto
  next
    case False
    with l1 have lt: "int (length res1) < n" by simp
    have "\<exists>res'. GetN_loop c n s ((v + 1 - 1) mod L + 1) res1 = Some (Inr res')
           \<and> int (length res') = n \<and> distinct res' \<and> set res' \<subseteq> set (occupants c)
           \<and> hd res' = hd res1"
    proof (rule Suc.hyps(1))
      show "d = s + L - (v + 1)" using Suc.hyps(2) by simp
      show "s + 1 \<le> v + 1" using Suc.prems(1) by simp
      show "v + 1 \<le> s + L" using vb assms(2) by simp
    qed (rule d1 n1 s1 lt)+
    with rnd False h1 show ?thesis by auto
  qed
qed

lemma occupants_members:
  assumes "good c" and "x \<in> set (occupants c)"
  shows "x |\<in>| fmdom (members c)"
proof -
  from assms(2) obtain p where p: "p \<in> set (sortedHashes c)" "x = circle_at c p"
    by (auto simp: occupants_def)
  from assms(1) p(1) have "p |\<in>| fmdom (circle c)"
    by (simp add: good_def ring_ok_def)
  then obtain y where y: "fmlookup (circle c) p = Some y" by (auto simp: fmlookup_dom_iff)
  with p(2) have "x = y" by (simp add: circle_at_def)
  with y assms(1) show ?thesis by (auto simp: good_def occupants_registered_def)
qed

text \<open>
  C8 (amended).  On a non-empty ring whose \<open>count\<close> is the number of distinct nodes on the
  circle, for every key and every \<open>n\<close> of at least 2, \<open>GetN\<close> returns exactly the smaller of
  \<open>n\<close> and that number of nodes; they are pairwise distinct and registered, and the first
  is the node \<open>Get\<close> returns.
\<close>

theorem GetN_distinct_nodes:
  assumes "good c" and "len_map (circle c) \<noteq> 0"
    and "2 \<le> sint n" and "sint (count c) = int (card (set (occupants c)))"
  shows "\<exists>a res. Get c name = Inr a \<and> GetN c name n = Some (Inr res) \<and> hd res = a
           \<and> int (length res) = min (sint n) (int (card (set (occupants c))))
           \<and> distinct res \<and> (\<forall>x \<in> set res. x |\<in>| fmdom (members c))"
proof -
  have ok: "ring_ok c" using assms(1) by (simp add: good_def)
  define L where "L = length (sortedHashes c)"
  define s where "s = search c (hashKey c name)"
  define a where "a = circle_at c (sortedHashes c ! s)"
  define D where "D = set (occupants c)"
  define m where "m = min (sint n) (int (card D))"
  have ne: "sortedHashes c \<noteq> []" by (rule ring_ok_nonempty[OF ok assms(2)])
  have sL: "s < L" unfolding s_def L_def by (rule search_in_range[OF ne])
  have g: "Get c name = Inr a"
    using Get_selected[OF ok assms(2)] by (simp add: a_def s_def selected_def)
  have occ_s: "occupants c ! s = a" using sL by (simp add: a_def occupants_nth L_def)
  have lo: "length (occupants c) = L" by (simp add: occupants_def L_def)
  have aD: "a \<in> D" unfolding D_def using occ_s sL lo by (metis nth_mem)
  have fin: "finite D" by (simp add: D_def)
  from aD fin have cD: "1 \<le> card D" by (metis card_gt_0_iff empty_iff Suc_leI One_nat_def)
  have m1: "1 \<le> m" using assms(3) cD by (simp add: m_def)
  have clamp: "(if sint (count c) < sint n then sint (count c) else sint n) = m"
    using assms(4) by (simp add: m_def D_def min_def)
  have nle: "\<not> L \<le> s" using sL by simp
  have GN: "GetN c name n = GetN_loop c m s (s + 1) [a]"
    using assms(2) nle m1
    by (simp add: GetN_def Let_def clamp s_def[symmetric] L_def[symmetric] a_def[symmetric])
  have entry: "(s + 1 - 1) mod L + 1 = s + 1" using sL by simp
  have "\<exists>res. GetN_loop c m s (s + 1) [a] = Some (Inr res) \<and> hd res = a
           \<and> int (length res) = m \<and> distinct res \<and> set res \<subseteq> D"
  proof (cases "m = 1")
    case True
    with assms(3) have "card D = 1" by (simp add: m_def min_def split: if_splits)
    then obtain z where "D = {z}" by (auto simp: card_1_singleton_iff)
    with aD have Da: "D = {a}" by simp
    have "(s + 1) mod L < L" using sL by simp
    then have "occupants c ! ((s + 1) mod L) \<in> D" unfolding D_def using lo by simp
    with Da have same: "occupants c ! ((s + 1) mod L) = a" by simp
    have "GetN_loop c m s ((s + 1 - 1) mod L + 1) [a] = Some (Inr [a])"
      using GetN_loop_round[OF L_def[symmetric] sL, of "s + 1" m "[a]"] same True by simp
    then show ?thesis unfolding entry using True aD by simp
  next
    case False
    with m1 have m2: "int (length [a]) < m" by simp
    have mD: "m \<le> int (card (set (occupants c)))" by (simp add: m_def D_def)
    have st: "set [a] = (\<lambda>u. occupants c ! (u mod L)) ` {s..<s + 1}"
      using occ_s sL by simp
    have p1: "s + 1 \<le> s + 1" by simp
    have p2: "s + 1 \<le> s + L" using sL by simp
    have p3: "distinct [a]" by simp
    have p4: "[a] \<noteq> []" by simp
    from GetN_loop_collect[OF L_def[symmetric] sL mD p1 p2 p3 p4 st m2]
    obtain res' where "GetN_loop c m s ((s + 1 - 1) mod L + 1) [a] = Some (Inr res')"
      "int (length res') = m" "distinct res'" "set res' \<subseteq> set (occupants c)" "hd res' = hd [a]"
      by auto
    then show ?thesis unfolding entry by (auto simp: D_def)
  qed
  then obtain res where res: "GetN_loop c m s (s + 1) [a] = Some (Inr res)" "hd res = a"
    "int (length res) = m" "distinct res" "set res \<subseteq> D" by blast
  have "\<forall>x \<in> set res. x |\<in>| fmdom (members c)"
    using res(5) occupants_members[OF assms(1)] by (auto simp: D_def)
  with g GN res show ?thesis unfolding m_def D_def by auto
qed

lemma occupants_ring_two_set: "set (occupants ring_two) = {''abcdefg'', ''hijklmn''}"
  by (simp add: occupants_def sortedHashes_ring_two circle_at_ring_two insert_commute)

lemma members_ring_two:
  "members ring_two = fmupd ''hijklmn'' True (fmupd ''abcdefg'' True fmempty)"
  using Add_keeps(4)[OF good_config[OF good_ring_one] Add_ring_two] members_ring_one by simp

theorem GetN_distinct_nodes_witness:
  "good ring_two \<and> len_map (circle ring_two) \<noteq> 0 \<and> 2 \<le> sint (5 :: go_int)
   \<and> sint (count ring_two) = int (card (set (occupants ring_two)))
   \<and> (\<exists>res. GetN ring_two ''ggg'' 5 = Some (Inr res) \<and> hd res = ''abcdefg''
          \<and> length res = 2 \<and> distinct res
          \<and> list_all (\<lambda>x. x |\<in>| fmdom (members ring_two)) res)"
proof -
  have b: "len_map (circle ring_two) \<noteq> 0" by (simp add: len_map_ring_two)
  have c: "2 \<le> sint (5 :: go_int)" by simp
  have card: "card (set (occupants ring_two)) = 2" by (simp add: occupants_ring_two_set)
  have d: "sint (count ring_two) = int (card (set (occupants ring_two)))"
    by (simp add: count_ring_two card)
  from GetN_distinct_nodes[OF good_ring_two b c d, of "''ggg''"] Get_ring_two_ggg
  obtain res where "GetN ring_two ''ggg'' 5 = Some (Inr res)" "hd res = ''abcdefg''"
    "int (length res) = min (sint (5 :: go_int)) (int (card (set (occupants ring_two))))"
    "distinct res" "\<forall>x \<in> set res. x |\<in>| fmdom (members ring_two)"
    by auto
  then have "GetN ring_two ''ggg'' 5 = Some (Inr res) \<and> hd res = ''abcdefg''
          \<and> length res = 2 \<and> distinct res
          \<and> list_all (\<lambda>x. x |\<in>| fmdom (members ring_two)) res"
    by (simp add: card list_all_iff)
  with good_ring_two b c d show ?thesis by blast
qed

lemma GetN_loop_all_same:
  assumes "length (sortedHashes c) = L"
    and "1 \<le> s" and "s < L" and "\<forall>k<L. occupants c ! k = a" and "n \<noteq> 1"
    and "s + 1 \<le> v" and "v \<le> s + L"
  shows "GetN_loop c n s ((v - 1) mod L + 1) [a] = Some (Inr [a])"
  using assms(6,7)
proof (induction "s + L - v" arbitrary: v)
  case 0
  then have v: "v = s + L" by simp
  have e: "s + L - 1 = (s - 1) + L" using assms(2) by arith
  have "(s + L - 1) mod L = (s - 1) mod L" unfolding e by simp
  also have "\<dots> = s - 1" using assms(3) by simp
  finally have "(v - 1) mod L + 1 = s" using v assms(2) by simp
  then show ?case by (subst GetN_loop.simps) simp
next
  case (Suc d)
  then have vb: "v \<le> s + L - 1" by simp
  have "v mod L < L" using assms(3) by simp
  with assms(4) have same: "occupants c ! (v mod L) = a" by simp
  have "GetN_loop c n s ((v + 1 - 1) mod L + 1) [a] = Some (Inr [a])"
  proof (rule Suc.hyps(1))
    show "d = s + L - (v + 1)" using Suc.hyps(2) by simp
    show "s + 1 \<le> v + 1" using Suc.prems(1) by simp
    show "v + 1 \<le> s + L" using vb assms(3) by simp
  qed
  with GetN_loop_round[OF assms(1,3) Suc.prems(1), of n "[a]"] vb same assms(5)
  show ?case by simp
qed

text \<open>
  On the ring of the two names with one checksum two nodes are registered and \<open>count\<close> is
  2, but a walk round the circle meets one node only.
\<close>

theorem GetN_clash_counterexample:
  "fmlookup (members ring_clash) ''kadtati'' = Some True
   \<and> fmlookup (members ring_clash) ''hosdwbv'' = Some True
   \<and> count ring_clash = 2
   \<and> GetN ring_clash ''tom'' 2 = Some (Inr [''hosdwbv''])"
proof -
  have loop: "GetN_loop ring_clash 2 10 ((11 - 1) mod 20 + 1) [''hosdwbv''] = Some (Inr [''hosdwbv''])"
    by (rule GetN_loop_all_same[OF length_ring_clash _ _ occupants_ring_clash]) simp_all
  then have "GetN_loop ring_clash 2 10 (10 + 1) [''hosdwbv''] = Some (Inr [''hosdwbv''])" by simp
  then have "GetN ring_clash ''tom'' 2 = Some (Inr [''hosdwbv''])"
    by (simp add: GetN_def Let_def len_map_ring_clash search_ring_clash_tom length_ring_clash
          primary_ring_clash_tom count_ring_clash)
  then show ?thesis by (simp add: members_ring_clash count_ring_clash)
qed

section \<open>The errors of the lookups\<close>

lemma GetTwo_loop_no_panic_aux:
  assumes "GetTwo_loop c a s i b = Some y"
  shows "len_map (circle c) = length (sortedHashes c) \<and> 0 < length (sortedHashes c)
           \<longrightarrow> (\<exists>b'. y = Inr b')"
proof (rule GetTwo_loop.raw_induct[where
      P = "\<lambda>c a s i b y. len_map (circle c) = length (sortedHashes c)
              \<and> 0 < length (sortedHashes c) \<longrightarrow> (\<exists>b'. y = Inr b')", OF _ assms])
  fix f c a start i b ca
  assume IH: "\<And>a start i b ba y. f a start i b ba = Some y \<Longrightarrow>
                len_map (circle a) = length (sortedHashes a) \<and> 0 < length (sortedHashes a)
                  \<longrightarrow> (\<exists>b'. y = Inr b')"
    and eq: "(if i = start then Some (Inr b)
      else let i1 = if len_map (circle c) \<le> i then 0 else i
           in if length (sortedHashes c) \<le> i1
              then Some (Inl PanicIndexOutOfRange)
              else let b1 = circle_at c (sortedHashes c ! i1)
                   in if b1 \<noteq> a then Some (Inr b1)
                      else f c a start (i1 + 1) b1) = Some ca"
  show "len_map (circle c) = length (sortedHashes c) \<and> 0 < length (sortedHashes c)
           \<longrightarrow> (\<exists>b'. ca = Inr b')"
  proof
    assume h: "len_map (circle c) = length (sortedHashes c) \<and> 0 < length (sortedHashes c)"
    show "\<exists>b'. ca = Inr b'"
    proof (cases "i = start")
      case True
      with eq show ?thesis by auto
    next
      case False
      define i1 where "i1 = (if len_map (circle c) \<le> i then 0 else i)"
      have lt: "\<not> length (sortedHashes c) \<le> i1" using h by (auto simp: i1_def)
      define b1 where "b1 = circle_at c (sortedHashes c ! i1)"
      from eq False lt have e2: "(if b1 \<noteq> a then Some (Inr b1) else f c a start (i1 + 1) b1) = Some ca"
        by (simp add: Let_def i1_def[symmetric] b1_def[symmetric])
      show ?thesis
      proof (cases "b1 \<noteq> a")
        case True
        with e2 show ?thesis by auto
      next
        case False
        with e2 have "f c a start (i1 + 1) b1 = Some ca" by simp
        from IH[OF this] h show ?thesis by simp
      qed
    qed
  qed
qed

lemma GetTwo_loop_no_panic:
  assumes "GetTwo_loop c a s i b = Some y"
    and "len_map (circle c) = length (sortedHashes c)" and "0 < length (sortedHashes c)"
  shows "\<exists>b'. y = Inr b'"
  using GetTwo_loop_no_panic_aux[OF assms(1)] assms(2,3) by simp

lemma GetN_loop_no_panic_aux:
  assumes "GetN_loop c n s i res = Some y"
  shows "0 < length (sortedHashes c) \<longrightarrow> (\<exists>res'. y = Inr res')"
proof (rule GetN_loop.raw_induct[where
      P = "\<lambda>c n s i res y. 0 < length (sortedHashes c) \<longrightarrow> (\<exists>res'. y = Inr res')",
      OF _ assms])
  fix f c n start i res ca
  assume IH: "\<And>n start i res b y. f n start i res b = Some y \<Longrightarrow>
                0 < length (sortedHashes n) \<longrightarrow> (\<exists>res'. y = Inr res')"
    and eq: "(if i = start then Some (Inr res)
      else let i1 = if length (sortedHashes c) \<le> i then 0 else i
           in if length (sortedHashes c) \<le> i1
              then Some (Inl PanicIndexOutOfRange)
              else let elem = circle_at c (sortedHashes c ! i1);
                       res1 = if \<not> sliceContainsMember res elem then res @ [elem] else res
                   in if int (length res1) = n then Some (Inr res1)
                      else f c n start (i1 + 1) res1) = Some ca"
  show "0 < length (sortedHashes c) \<longrightarrow> (\<exists>res'. ca = Inr res')"
  proof
    assume h: "0 < length (sortedHashes c)"
    show "\<exists>res'. ca = Inr res'"
    proof (cases "i = start")
      case True
      with eq show ?thesis by auto
    next
      case False
      define i1 where "i1 = (if length (sortedHashes c) \<le> i then 0 else i)"
      have lt: "\<not> length (sortedHashes c) \<le> i1" using h by (auto simp: i1_def)
      define res1 where "res1 = (if \<not> sliceContainsMember res (circle_at c (sortedHashes c ! i1))
                                 then res @ [circle_at c (sortedHashes c ! i1)] else res)"
      from eq False lt
      have e2: "(if int (length res1) = n then Some (Inr res1) else f c n start (i1 + 1) res1) = Some ca"
        unfolding res1_def by (simp add: Let_def i1_def[symmetric])
      show ?thesis
      proof (cases "int (length res1) = n")
        case True
        with e2 show ?thesis by auto
      next
        case False
        with e2 have "f c n start (i1 + 1) res1 = Some ca" by simp
        from IH[OF this] h show ?thesis by simp
      qed
    qed
  qed
qed

lemma GetN_loop_no_panic:
  assumes "GetN_loop c n s i res = Some y" and "0 < length (sortedHashes c)"
  shows "\<exists>res'. y = Inr res'"
  using GetN_loop_no_panic_aux[OF assms(1)] assms(2) by simp

lemma no_members_no_circle:
  assumes "good c" and "fmdom (members c) = {||}"
  shows "len_map (circle c) = 0"
proof -
  have "fmdom (circle c) = {||}"
  proof (rule ccontr)
    assume "fmdom (circle c) \<noteq> {||}"
    then obtain p where "p |\<in>| fmdom (circle c)" by auto
    then obtain e where "fmlookup (circle c) p = Some e" by (auto simp: fmlookup_dom_iff)
    with assms(1) have "e |\<in>| fmdom (members c)"
      by (auto simp: good_def occupants_registered_def)
    with assms(2) show False by simp
  qed
  then show ?thesis by (simp add: len_map_def)
qed

lemma Get_error:
  assumes "ring_ok c" and "Get c k = Inl e"
  shows "e = ErrEmptyCircle"
proof (cases "len_map (circle c) = 0")
  case True
  with assms(2) show ?thesis by (simp add: Get_def)
next
  case False
  from Get_selected[OF assms(1) False, of k] assms(2) show ?thesis by simp
qed

lemma GetTwo_error:
  assumes "ring_ok c" and "GetTwo c k = Some (Inl e)"
  shows "e = ErrEmptyCircle"
proof (cases "len_map (circle c) = 0")
  case True
  with assms(2) show ?thesis by (simp add: GetTwo_def)
next
  case False
  have ne: "sortedHashes c \<noteq> []" by (rule ring_ok_nonempty[OF assms(1) False])
  have len: "len_map (circle c) = length (sortedHashes c)"
    using ring_ok_length[OF assms(1)] by simp
  define s where "s = search c (hashKey c k)"
  define a where "a = circle_at c (sortedHashes c ! s)"
  have "\<not> length (sortedHashes c) \<le> s"
    using search_in_range[OF ne, of "hashKey c k"] by (simp add: s_def)
  with assms(2) False have l: "count c \<noteq> 1 \<and>
        (case GetTwo_loop c a s (s + 1) [] of None \<Rightarrow> None
         | Some (Inl e) \<Rightarrow> Some (Inl e) | Some (Inr b) \<Rightarrow> Some (Inr (a, b))) = Some (Inl e)"
    by (auto simp: GetTwo_def Let_def s_def[symmetric] a_def[symmetric] split: if_splits)
  then obtain y where y: "GetTwo_loop c a s (s + 1) [] = Some y"
    by (cases "GetTwo_loop c a s (s + 1) []") auto
  from GetTwo_loop_no_panic[OF y len] ne obtain b' where "y = Inr b'" by auto
  with l y show ?thesis by simp
qed

lemma GetN_error:
  assumes "ring_ok c" and "0 \<le> min (sint n) (sint (count c))"
    and "GetN c k n = Some (Inl e)"
  shows "e = ErrEmptyCircle"
proof (cases "len_map (circle c) = 0")
  case True
  with assms(3) show ?thesis by (simp add: GetN_def)
next
  case False
  have ne: "sortedHashes c \<noteq> []" by (rule ring_ok_nonempty[OF assms(1) False])
  define s where "s = search c (hashKey c k)"
  define m where "m = (if sint (count c) < sint n then sint (count c) else sint n)"
  have m0: "\<not> m < 0" using assms(2) by (simp add: m_def min_def split: if_splits)
  have "\<not> length (sortedHashes c) \<le> s"
    using search_in_range[OF ne, of "hashKey c k"] by (simp add: s_def)
  with assms(3) False m0
  have "GetN_loop c m s (s + 1) [circle_at c (sortedHashes c ! s)] = Some (Inl e)"
    by (simp add: GetN_def Let_def s_def[symmetric] m_def[symmetric])
  from GetN_loop_no_panic[OF this] ne show ?thesis by auto
qed

lemma no_nodes_no_ring:
  assumes "hgood h" and "fmdom (nodes h) = {||}"
  shows "len_map (ring h) = 0"
proof -
  have "fmdom (ring h) = {||}"
  proof (rule ccontr)
    assume "fmdom (ring h) \<noteq> {||}"
    then obtain p where "p |\<in>| fmdom (ring h)" by auto
    then obtain ns where ns: "fmlookup (ring h) p = Some ns" by (auto simp: fmlookup_dom_iff)
    with assms(1) have "ns \<noteq> []" and "\<forall>x \<in> set ns. repr x |\<in>| fmdom (nodes h)"
      by (auto simp: hgood_def)
    then obtain x where "repr x |\<in>| fmdom (nodes h)" by (cases ns) auto
    with assms(2) show False by simp
  qed
  then show ?thesis by (simp add: len_map_def)
qed

text \<open>
  C2 (amended).  On every ring reached from a fresh one: with zero registered nodes, every
  lookup of the string ring fails with \<open>ErrEmptyCircle\<close> and \<open>Get\<close> of the node ring
  returns \<open>(nil, false)\<close>; no mutation fails; \<open>ErrEmptyCircle\<close> is the only error \<open>Get\<close>
  and \<open>GetTwo\<close> produce, and the only one \<open>GetN\<close> produces when \<open>n\<close> and \<open>count\<close> are not
  negative.
\<close>

theorem lookup_errors:
  assumes "run New ops = Inr c"
  shows "(fmdom (members c) = {||} \<longrightarrow>
            Get c k = Inl ErrEmptyCircle \<and> GetTwo c k = Some (Inl ErrEmptyCircle)
            \<and> GetN c k n = Some (Inl ErrEmptyCircle))
       \<and> (\<forall>e. Get c k = Inl e \<longrightarrow> e = ErrEmptyCircle)
       \<and> (\<forall>e. GetTwo c k = Some (Inl e) \<longrightarrow> e = ErrEmptyCircle)
       \<and> (\<forall>e. 0 \<le> min (sint n) (sint (count c)) \<longrightarrow> GetN c k n = Some (Inl e)
              \<longrightarrow> e = ErrEmptyCircle)
       \<and> (\<exists>c'. apply_op c x = Inr c')
       \<and> (fmdom (nodes (hrun (NewCustomConsistentHash Hash r fn) hops)) = {||} \<longrightarrow>
            ConsistentHash_Get (hrun (NewCustomConsistentHash Hash r fn) hops) v = Inr None)"
proof -
  from good_run[OF good_New, of ops] assms have g: "good c" by auto
  then have ok: "ring_ok c" by (simp add: good_def)
  have empty: "fmdom (members c) = {||} \<longrightarrow>
            Get c k = Inl ErrEmptyCircle \<and> GetTwo c k = Some (Inl ErrEmptyCircle)
            \<and> GetN c k n = Some (Inl ErrEmptyCircle)"
    using no_members_no_circle[OF g] by (simp add: Get_def GetTwo_def GetN_def)
  have mut: "\<exists>c'. apply_op c x = Inr c'" using good_apply_op[OF g, of x] by blast
  have nd: "fmdom (nodes (hrun (NewCustomConsistentHash Hash r fn) hops)) = {||} \<longrightarrow>
            ConsistentHash_Get (hrun (NewCustomConsistentHash Hash r fn) hops) v = Inr None"
    using no_nodes_no_ring[OF hgood_hrun[OF hgood_New], of Hash r fn hops]
    by (simp add: ConsistentHash_Get_def)
  from empty mut nd Get_error[OF ok] GetTwo_error[OF ok] GetN_error[OF ok]
  show ?thesis by blast
qed

lemma run_ring_emptied:
  "run New [OpAdd ''abcdefg'', OpRemove ''abcdefg''] = Inr ring_emptied"
proof -
  from good_remove[OF good_ring_one, of "''abcdefg''"]
  have "Remove ring_one ''abcdefg'' = Inr ring_emptied"
    by (auto simp: Remove_def ring_emptied_def)
  with Add_New_ring_one show ?thesis by simp
qed

lemma members_ring_emptied: "fmdom (members ring_emptied) = {||}"
  using remove_result[OF good_config[OF good_ring_one], of "''abcdefg''"] members_ring_one
  by (simp add: ring_emptied_def Remove_def)

lemma count_ring_emptied: "count ring_emptied = 0"
  using remove_result[OF good_config[OF good_ring_one], of "''abcdefg''"] count_ring_one
  by (simp add: ring_emptied_def Remove_def)

theorem lookup_errors_witness:
  "run New [OpAdd ''abcdefg'', OpRemove ''abcdefg''] = Inr ring_emptied
   \<and> fmdom (members ring_emptied) = {||}
   \<and> 0 \<le> min (sint (3 :: go_int)) (sint (count ring_emptied))
   \<and> Get ring_emptied ''ggg'' = Inl ErrEmptyCircle
   \<and> GetTwo ring_emptied ''ggg'' = Some (Inl ErrEmptyCircle)
   \<and> GetN ring_emptied ''ggg'' 3 = Some (Inl ErrEmptyCircle)
   \<and> fmdom (nodes (hrun (NewCustomConsistentHash fnv64a minReplica (Some fnv64a)) [])) = {||}
   \<and> ConsistentHash_Get (hrun (NewCustomConsistentHash fnv64a minReplica (Some fnv64a)) [])
        (StringNode ''ggg'') = Inr None"
proof -
  have n: "fmdom (nodes (hrun (NewCustomConsistentHash fnv64a minReplica (Some fnv64a)) [])) = {||}"
    by (simp add: hrun_def NewCustomConsistentHash_def Let_def)
  have c: "0 \<le> min (sint (3 :: go_int)) (sint (count ring_emptied))"
    by (simp add: count_ring_emptied)
  from lookup_errors[OF run_ring_emptied, of "''ggg''" 3 "OpAdd ''x''" fnv64a minReplica
         "Some fnv64a" "[]" "StringNode ''ggg''"]
       members_ring_emptied n c run_ring_emptied
  show ?thesis by blast
qed

text \<open>
  On the ring that holds \<open>"abcdefg"\<close>, \<open>GetN\<close> with \<open>n = -1\<close> reaches
  \<open>make([]string, 0, -1)\<close>.
\<close>

theorem GetN_negative_counterexample:
  "len_map (circle ring_one) = 20 \<and> GetN ring_one ''ggg'' (- 1) = Some (Inl PanicMakeSlice)"
  by (simp add: GetN_def Let_def len_map_ring_one count_ring_one)

end
